theory Spec2Isabelle
  imports Main "HOL-Library.Word" "HOL-Library.Sublist"
begin

unbundle bit_operations_syntax

section \<open>C strings\<close>

text \<open>
  A C string is modelled by the list of its characters before the terminating NUL, and a
  pointer into it by the suffix that is still to be read: \<open>**input\<close> is \<open>peek input\<close>
  (the terminator when the suffix is empty) and \<open>(*input)++\<close> is \<open>tl input\<close>.
  Reading behind the terminator is undefined in C; the model has an error value for it.
\<close>

definition peek :: "string \<Rightarrow> char" where
  "peek s = (case s of [] \<Rightarrow> CHR 0x00 | c # _ \<Rightarrow> c)"

definition name_at :: "string \<Rightarrow> nat \<Rightarrow> char" where
  \<comment> \<open>\<open>s[k]\<close> for \<open>k \<le> strlen(s)\<close>: the terminator at \<open>k = strlen(s)\<close>\<close>
  "name_at s k = (if k < length s then s ! k else CHR 0x00)"

fun strncmp0 :: "string \<Rightarrow> string \<Rightarrow> nat \<Rightarrow> bool" where
  \<comment> \<open>\<open>strncmp(s, t, n) == 0\<close>: at most \<open>n\<close> characters are compared and the comparison
      stops behind a NUL; the end of a list is its terminator\<close>
  "strncmp0 [] t n = (n = 0 \<or> (case t of [] \<Rightarrow> True | b # _ \<Rightarrow> b = CHR 0x00))"
| "strncmp0 (a # s) t n =
     (n = 0 \<or> (case t of [] \<Rightarrow> a = CHR 0x00
                | b # t' \<Rightarrow> a = b \<and> (a = CHR 0x00 \<or> strncmp0 s t' (n - 1))))"

definition isdigit :: "char \<Rightarrow> bool" where
  "isdigit c = (48 \<le> (of_char c :: nat) \<and> (of_char c :: nat) \<le> 57)"

definition quote :: char where
  \<comment> \<open>\<open>char quote = '\\'\<close> in \<open>parse_lhs\<close> and \<open>parse_rhs\<close>\<close>
  "quote = CHR 0x5C"

section \<open>The ex command line (ex.c)\<close>

subsection \<open>Data\<close>

datatype ExCode =
    EX_BMA | EX_BMR | EX_EVAL | EX_CMAP | EX_IMAP | EX_NMAP | EX_CUNMAP | EX_IUNMAP
  | EX_NUNMAP | EX_OPEN | EX_QCLEAR | EX_QPOP | EX_QPUSH | EX_QUNSHIFT | EX_QUIT | EX_SAVE
  | EX_SCA | EX_SCD | EX_SCR | EX_SET | EX_SHELLCMD | EX_TABOPEN

text \<open>The handler functions of the command table, by name.\<close>

datatype ExFunc =
    ex_bookmark | ex_eval | ex_map | ex_unmap | ex_open | ex_queue | ex_quit | ex_save
  | ex_set | ex_shellcmd | ex_shortcut

definition EX_FLAG_NONE :: int where "EX_FLAG_NONE = 0x000"
definition EX_FLAG_BANG :: int where "EX_FLAG_BANG = 0x001"
definition EX_FLAG_LHS :: int where "EX_FLAG_LHS = 0x002"
definition EX_FLAG_RHS :: int where "EX_FLAG_RHS = 0x004"

record ExInfo =
  name :: string
  code :: ExCode
  func :: ExFunc
  flags :: int

text \<open>
  \<open>count\<close> is a C \<open>int\<close>. Signed overflow is undefined in C; the model computes in
  32 bits with wrap-around, which is what the multiplication and addition of
  \<open>parse_count\<close> compile to.
\<close>

record ExArg =
  count :: "32 word"
  idx :: nat
  arg_name :: string
  arg_code :: ExCode
  bang :: bool
  lhs :: string
  rhs :: string

definition mk :: "string \<Rightarrow> ExCode \<Rightarrow> ExFunc \<Rightarrow> int \<Rightarrow> ExInfo" where
  "mk n c f fl = \<lparr>name = n, code = c, func = f, flags = fl\<rparr>"

definition commands :: "ExInfo list" where
  "commands =
   [mk ''bma'' EX_BMA ex_bookmark EX_FLAG_RHS,
    mk ''bmr'' EX_BMR ex_bookmark EX_FLAG_RHS,
    mk ''cmap'' EX_CMAP ex_map (EX_FLAG_LHS OR EX_FLAG_RHS),
    mk ''cunmap'' EX_CUNMAP ex_unmap EX_FLAG_LHS,
    mk ''eval'' EX_EVAL ex_eval EX_FLAG_RHS,
    mk ''imap'' EX_IMAP ex_map (EX_FLAG_LHS OR EX_FLAG_RHS),
    mk ''iunmap'' EX_IUNMAP ex_unmap EX_FLAG_LHS,
    mk ''nmap'' EX_NMAP ex_map (EX_FLAG_LHS OR EX_FLAG_RHS),
    mk ''nunmap'' EX_NUNMAP ex_unmap EX_FLAG_LHS,
    mk ''open'' EX_OPEN ex_open EX_FLAG_RHS,
    mk ''quit'' EX_QUIT ex_quit EX_FLAG_NONE,
    mk ''qclear'' EX_QCLEAR ex_queue EX_FLAG_RHS,
    mk ''qpop'' EX_QPOP ex_queue EX_FLAG_NONE,
    mk ''qpush'' EX_QPUSH ex_queue EX_FLAG_RHS,
    mk ''qunshift'' EX_QUNSHIFT ex_queue EX_FLAG_RHS,
    mk ''save'' EX_SAVE ex_save EX_FLAG_RHS,
    mk ''set'' EX_SET ex_set EX_FLAG_RHS,
    mk ''shellcmd'' EX_SHELLCMD ex_shellcmd EX_FLAG_RHS,
    mk ''shortcut-add'' EX_SCA ex_shortcut EX_FLAG_RHS,
    mk ''shortcut-default'' EX_SCD ex_shortcut EX_FLAG_RHS,
    mk ''shortcut-remove'' EX_SCR ex_shortcut EX_FLAG_RHS,
    mk ''tabopen'' EX_TABOPEN ex_open EX_FLAG_RHS]"

text \<open>
  What \<open>parse\<close> and \<open>ex_run_string\<close> can end with other than success. The first three are
  the \<open>return false\<close> paths. The other two are undefined behaviour that the code does
  not guard against: a read behind the terminator of the input (with the text collected
  up to that point), and a write behind the 20 characters of the buffer \<open>cmd\<close> of
  \<open>parse_command_name\<close>.
\<close>

datatype error =
    EmptyInput
  | NoMatchingCommand
  | CommandFailed
  | ReadPastTerminator string
  | NameBufferOverflow

subsection \<open>parse_count\<close>

fun count_loop :: "string \<Rightarrow> 32 word \<Rightarrow> string \<times> 32 word" where
  \<comment> \<open>the \<open>do ... while (isdigit(**input))\<close> loop, entered on a digit\<close>
  "count_loop [] n = ([], n)"
| "count_loop (c # cs) n =
     (if isdigit c then count_loop cs (n * 10 + (of_char c - 48)) else (c # cs, n))"

definition parse_count :: "string \<Rightarrow> ExArg \<Rightarrow> string \<times> ExArg" where
  "parse_count input arg =
     (if \<not> isdigit (peek input) then (input, arg\<lparr>count := 0\<rparr>)
      else (case count_loop input (count arg) of (rest, n) \<Rightarrow> (rest, arg\<lparr>count := n\<rparr>)))"

subsection \<open>parse_command_name\<close>

fun scan :: "string \<Rightarrow> ExInfo list \<Rightarrow> nat \<Rightarrow> nat \<Rightarrow> nat \<Rightarrow> nat \<times> nat" where
  \<comment> \<open>the \<open>for\<close> loop over the table from index \<open>i\<close> on; \<open>cmd\<close> holds the \<open>len\<close>
      characters read so far, the last one being \<open>**input\<close>; returns \<open>(first, matches)\<close>\<close>
  "scan cmd [] i first matches = (first, matches)"
| "scan cmd (e # es) i first matches =
     (if length cmd > 1 \<and> \<not> strncmp0 (name e) cmd (length cmd - 1) then (first, matches)
      else if name_at (name e) (length cmd - 1) = last cmd
           then scan cmd es (i + 1) (if matches = 0 then i else first) (matches + 1)
           else scan cmd es (i + 1) first matches)"

fun name_loop :: "string \<Rightarrow> string \<Rightarrow> nat \<Rightarrow> error + (string \<times> nat \<times> nat)" where
  \<comment> \<open>the \<open>do ... while\<close> loop: \<open>(rest of the input, first, matches)\<close>. \<open>cmd\<close> holds the
      \<open>len\<close> characters written to the buffer so far. Only the first round can meet
      the terminator; the pointer then moves behind it and is not read again unless the
      terminator matched a name.\<close>
  "name_loop [] cmd first =
     (if length cmd \<ge> 20 then Inl NameBufferOverflow
      else case scan (cmd @ [CHR 0x00]) (drop first commands) first first 0 of
        (f, m) \<Rightarrow> if m > 0 then Inl (ReadPastTerminator cmd) else Inr ([], f, m))"
| "name_loop (c # cs) cmd first =
     (if length cmd \<ge> 20 then Inl NameBufferOverflow
      else case scan (cmd @ [c]) (drop first commands) first first 0 of
        (f, m) \<Rightarrow> if m > 0 \<and> cs \<noteq> [] \<and> hd cs \<noteq> CHR '' '' then name_loop cs (cmd @ [c]) f
                  else Inr (cs, f, m))"

definition parse_command_name :: "string \<Rightarrow> ExArg \<Rightarrow> error + (string \<times> ExArg)" where
  "parse_command_name input arg =
     (case name_loop input [] 0 of
        Inl e \<Rightarrow> Inl e
      | Inr (rest, first, matches) \<Rightarrow>
          if matches = 0 then Inl NoMatchingCommand
          else Inr (rest, arg\<lparr>idx := first,
                              arg_code := code (commands ! first),
                              arg_name := name (commands ! first)\<rparr>))"

subsection \<open>parse_lhs and parse_rhs\<close>

text \<open>
  After a backslash the source tests \<open>!*input\<close>, the pointer, where the character
  \<open>**input\<close> is meant. The pointer is never null, so the branch "input ends here" is
  never taken: at the end of the input the backslash and the terminator are appended,
  the pointer moves behind the terminator, and the loop test reads there.
\<close>

fun lhs_loop :: "string \<Rightarrow> string \<Rightarrow> error + (string \<times> string)" where
  "lhs_loop [] acc = Inr ([], acc)"
| "lhs_loop (c # cs) acc =
     (if c = CHR '' '' then Inr (c # cs, acc)
      else if c = quote then
        (case cs of
           [] \<Rightarrow> Inl (ReadPastTerminator (acc @ [quote, CHR 0x00]))
         | d # ds \<Rightarrow> if d = CHR '' '' then lhs_loop ds (acc @ [d])
                     else lhs_loop ds (acc @ [quote, d]))
      else lhs_loop cs (acc @ [c]))"

definition parse_lhs :: "string \<Rightarrow> ExArg \<Rightarrow> error + (string \<times> ExArg)" where
  "parse_lhs input arg =
     (if input = [] then Inr (input, arg)
      else case lhs_loop input (lhs arg) of
             Inl e \<Rightarrow> Inl e
           | Inr (rest, l) \<Rightarrow> Inr (rest, arg\<lparr>lhs := l\<rparr>))"

fun rhs_loop :: "string \<Rightarrow> string \<Rightarrow> error + (string \<times> string)" where
  "rhs_loop [] acc = Inr ([], acc)"
| "rhs_loop (c # cs) acc =
     (if c = CHR 0x0A \<or> c = CHR ''|'' then Inr (c # cs, acc)
      else if c = quote then
        (case cs of
           [] \<Rightarrow> Inl (ReadPastTerminator (acc @ [quote, CHR 0x00]))
         | d # ds \<Rightarrow> if d = CHR '' '' then rhs_loop ds (acc @ [d])
                     else rhs_loop ds (acc @ [quote, d]))
      else rhs_loop cs (acc @ [c]))"

definition parse_rhs :: "string \<Rightarrow> ExArg \<Rightarrow> error + (string \<times> ExArg)" where
  "parse_rhs input arg =
     (if input = [] then Inr (input, arg)
      else case rhs_loop input (rhs arg) of
             Inl e \<Rightarrow> Inl e
           | Inr (rest, r) \<Rightarrow> Inr (rest, arg\<lparr>rhs := r\<rparr>))"

subsection \<open>parse\<close>

definition skip_whitespace :: "string \<Rightarrow> string" where
  "skip_whitespace input = dropWhile (\<lambda>c. c = CHR '' '') input"

definition parse :: "string \<Rightarrow> ExArg \<Rightarrow> error + (string \<times> ExArg)" where
  "parse input arg =
     (if input = [] then Inl EmptyInput
      else
        case parse_count (dropWhile (\<lambda>c. c = CHR '':'' \<or> c = CHR '' '') input)
                         (arg\<lparr>lhs := [], rhs := []\<rparr>) of
          (in1, arg1) \<Rightarrow>
        case parse_command_name (skip_whitespace in1) arg1 of
          Inl e \<Rightarrow> Inl e
        | Inr (in2, arg2) \<Rightarrow>
        case (if flags (commands ! idx arg2) AND EX_FLAG_LHS \<noteq> 0
              then parse_lhs (skip_whitespace in2) arg2
              else Inr (skip_whitespace in2, arg2)) of
          Inl e \<Rightarrow> Inl e
        | Inr (in3, arg3) \<Rightarrow>
        case (if flags (commands ! idx arg2) AND EX_FLAG_RHS \<noteq> 0
              then parse_rhs (skip_whitespace in3) arg3
              else Inr (skip_whitespace in3, arg3)) of
          Inl e \<Rightarrow> Inl e
        | Inr (in4, arg4) \<Rightarrow> Inr (tl in4, arg4))"

subsection \<open>execute\<close>

text \<open>
  The operations behind the handlers (bookmarks, settings, the mapping table, page
  loading, the shell, shortcuts, the queue) are outside this file. They are a parameter
  \<open>ext\<close>: given the state \<open>'w\<close> of the rest of the program and the parsed command,
  it returns the operation's result and the new state. What a handler decides before or
  after calling the operation is taken from the source.
\<close>

type_synonym 'w ext = "'w \<Rightarrow> ExArg \<Rightarrow> bool \<times> 'w"

fun call :: "'w ext \<Rightarrow> ExFunc \<Rightarrow> ExArg \<Rightarrow> 'w \<Rightarrow> bool \<times> 'w" where
  "call ext ex_bookmark arg w = ext w arg"
| "call ext ex_eval arg w = (if rhs arg = [] then (False, w) else ext w arg)"
| "call ext ex_map arg w =
     (if lhs arg = [] \<or> rhs arg = [] then (False, w) else (True, snd (ext w arg)))"
| "call ext ex_unmap arg w = (if lhs arg = [] then (False, w) else (True, snd (ext w arg)))"
| "call ext ex_open arg w = ext w arg"
| "call ext ex_queue arg w =
     (if arg_code arg \<in> {EX_QPUSH, EX_QUNSHIFT, EX_QPOP, EX_QCLEAR} then ext w arg
      else (False, w))"
| "call ext ex_quit arg w = (True, snd (ext w arg))"
| "call ext ex_save arg w = ext w arg"
| "call ext ex_set arg w = (if rhs arg = [] then (False, w) else ext w arg)"
| "call ext ex_shellcmd arg w = (if rhs arg = [] then (False, w) else ext w arg)"
| "call ext ex_shortcut arg w =
     (if arg_code arg = EX_SCA
      then (if rhs arg \<noteq> [] \<and> CHR ''='' \<in> set (rhs arg) then ext w arg else (False, w))
      else if arg_code arg = EX_SCR \<or> arg_code arg = EX_SCD then ext w arg
      else (False, w))"

definition execute :: "'w ext \<Rightarrow> ExArg \<Rightarrow> 'w \<Rightarrow> bool \<times> 'w" where
  "execute ext arg w = call ext (func (commands ! idx arg)) arg w"

subsection \<open>Every successful parse consumes input\<close>

lemma count_loop_length: "length (fst (count_loop s n)) \<le> length s"
proof (induction s arbitrary: n)
  case Nil
  then show ?case by simp
next
  case (Cons c cs)
  from Cons.IH [of "n * 10 + (of_char c - 48)"] show ?case by simp
qed

lemma parse_count_length: "parse_count s a = (s', a') \<Longrightarrow> length s' \<le> length s"
  using count_loop_length [of s "count a"]
  by (auto simp: parse_count_def split: if_splits prod.splits)

lemma name_loop_length:
  "name_loop s cmd f = Inr (s', f', m) \<Longrightarrow> s \<noteq> [] \<Longrightarrow> length s' < length s"
proof (induction s arbitrary: cmd f)
  case Nil
  then show ?case by simp
next
  case (Cons c cs)
  show ?case
  proof (cases "cs = []")
    case True
    with Cons.prems show ?thesis by (auto split: prod.splits if_splits)
  next
    case False
    with Cons.prems Cons.IH show ?thesis
      by (fastforce split: prod.splits if_splits)
  qed
qed

lemma parse_command_name_length:
  "parse_command_name s a = Inr (s', a') \<Longrightarrow> s \<noteq> [] \<Longrightarrow> length s' < length s"
  by (auto simp: parse_command_name_def split: sum.splits prod.splits if_splits
           dest: name_loop_length)

lemma parse_command_name_Nil: "parse_command_name [] a = Inr (s', a') \<Longrightarrow> False"
  by (auto simp: parse_command_name_def split: sum.splits prod.splits if_splits)

lemma lhs_loop_length: "lhs_loop s acc = Inr (s', l) \<Longrightarrow> length s' \<le> length s"
proof (induction s acc rule: lhs_loop.induct)
  case (1 acc)
  then show ?case by simp
next
  case (2 c cs acc)
  then show ?case by (fastforce split: if_splits list.splits)
qed

lemma rhs_loop_length: "rhs_loop s acc = Inr (s', r) \<Longrightarrow> length s' \<le> length s"
proof (induction s acc rule: rhs_loop.induct)
  case (1 acc)
  then show ?case by simp
next
  case (2 c cs acc)
  then show ?case by (fastforce split: if_splits list.splits)
qed

lemma parse_lhs_length: "parse_lhs s a = Inr (s', a') \<Longrightarrow> length s' \<le> length s"
  by (auto simp: parse_lhs_def split: if_splits sum.splits dest: lhs_loop_length)

lemma parse_rhs_length: "parse_rhs s a = Inr (s', a') \<Longrightarrow> length s' \<le> length s"
  by (auto simp: parse_rhs_def split: if_splits sum.splits dest: rhs_loop_length)

lemma skip_whitespace_length: "length (skip_whitespace s) \<le> length s"
  by (simp add: skip_whitespace_def length_dropWhile_le)

lemma parse_length:
  assumes "parse s a = Inr (s', a')"
  shows "length s' < length s"
proof -
  let ?s0 = "dropWhile (\<lambda>c. c = CHR '':'' \<or> c = CHR '' '') s"
  obtain in1 arg1 where c: "parse_count ?s0 (a\<lparr>lhs := [], rhs := []\<rparr>) = (in1, arg1)"
    by (cases "parse_count ?s0 (a\<lparr>lhs := [], rhs := []\<rparr>)")
  from assms c obtain in2 arg2
    where n: "parse_command_name (skip_whitespace in1) arg1 = Inr (in2, arg2)"
    by (auto simp: parse_def split: if_splits sum.splits)
  let ?l = "if flags (commands ! idx arg2) AND EX_FLAG_LHS \<noteq> 0
            then parse_lhs (skip_whitespace in2) arg2 else Inr (skip_whitespace in2, arg2)"
  from assms c n obtain in3 arg3 where l: "?l = Inr (in3, arg3)"
    by (auto simp: parse_def split: if_splits sum.splits)
  let ?r = "if flags (commands ! idx arg2) AND EX_FLAG_RHS \<noteq> 0
            then parse_rhs (skip_whitespace in3) arg3 else Inr (skip_whitespace in3, arg3)"
  from assms c n l obtain in4 arg4 where r: "?r = Inr (in4, arg4)" and s': "s' = tl in4"
    by (auto simp: parse_def split: if_splits sum.splits)
  have "length ?s0 \<le> length s" by (rule length_dropWhile_le)
  moreover have "length in1 \<le> length ?s0" using c by (rule parse_count_length)
  moreover have "length (skip_whitespace in1) \<le> length in1" by (rule skip_whitespace_length)
  moreover have "length in2 < length (skip_whitespace in1)"
    using n parse_command_name_length parse_command_name_Nil
    by (cases "skip_whitespace in1 = []") auto
  moreover have "length in3 \<le> length in2"
    using l parse_lhs_length [of "skip_whitespace in2" arg2 in3 arg3]
          skip_whitespace_length [of in2]
    by (auto split: if_splits)
  moreover have "length in4 \<le> length in3"
    using r parse_rhs_length [of "skip_whitespace in3" arg3 in4 arg4]
          skip_whitespace_length [of in3]
    by (auto split: if_splits)
  moreover have "length s' \<le> length in4" using s' by simp
  ultimately show ?thesis by linarith
qed

subsection \<open>ex_run_string\<close>

text \<open>
  The result of a run: what ended it (\<open>None\<close> for \<open>return true\<close>), the state of the
  rest of the program, and the calls of \<open>execute\<close> in order, each with its result.
\<close>

function ex_loop ::
  "'w ext \<Rightarrow> string \<Rightarrow> ExArg \<Rightarrow> 'w \<Rightarrow> (ExArg \<times> bool) list
     \<Rightarrow> error option \<times> 'w \<times> (ExArg \<times> bool) list" where
  "ex_loop ext input arg w log =
     (if input = [] then (None, w, log)
      else case parse input arg of
             Inl e \<Rightarrow> (Some e, w, log)
           | Inr (rest, arg') \<Rightarrow>
               (case execute ext arg' w of
                  (ok, w') \<Rightarrow>
                    if \<not> ok then (Some CommandFailed, w', log @ [(arg', ok)])
                    else ex_loop ext rest arg' w' (log @ [(arg', ok)])))"
  by pat_completeness auto
termination
  by (relation "measure (\<lambda>(ext, input, arg, w, log). length input)")
     (auto dest: parse_length)

definition arg0 :: ExArg where
  \<comment> \<open>\<open>g_new0(ExArg, 1)\<close> with two empty strings\<close>
  "arg0 = \<lparr>count = 0, idx = 0, arg_name = [], arg_code = EX_BMA, bang = False,
           lhs = [], rhs = []\<rparr>"

definition ex_run_string ::
  "'w ext \<Rightarrow> string \<Rightarrow> 'w \<Rightarrow> error option \<times> 'w \<times> (ExArg \<times> bool) list" where
  "ex_run_string ext input w = ex_loop ext input arg0 w []"

section \<open>The key map (map.c)\<close>

subsection \<open>Data\<close>

text \<open>
  The constants that \<open>map.c\<close> takes from \<open>config.h\<close>, \<open>ascii.h\<close> and \<open>map.h\<close>. These
  headers are not among the sources, so the constants are a parameter \<open>h\<close> of every
  function that uses one.
\<close>

record header =
  MAP_QUEUE_SIZE :: nat
  CSI :: char
  KEY_TAB :: char
  KEY_NL :: char
  KEY_CR :: char
  KEY_ESC :: char
  KEY_BS :: char

record Map =
  in_keys :: string
  inlen :: nat
  mapped :: string
  mappedlen :: nat
  mode :: char

text \<open>
  What \<open>map_handle_keys\<close> hands to \<open>mode_handle_key\<close>: the first character of the queue,
  or \<open>TERMCAP2KEY(queue[1], queue[2])\<close> for a CSI sequence.
\<close>

datatype key = Key char | Termcap char char

datatype MapState = MAP_DONE | MAP_AMBIGUOUS | MAP_NOMATCH

text \<open>
  The state that \<open>map_handle_keys\<close> works on: the static \<open>map\<close> (\<open>queue\<close> holds the first
  \<open>qlen\<close> characters of the array, so \<open>qlen\<close> is its length), of \<open>vb.mode\<close> the \<open>id\<close> and
  the \<open>FLAG_NOMAP\<close> bit of \<open>flags\<close>, and the keys sent to \<open>mode_handle_key\<close> so far.
  The mode handler is outside the sources: it is taken to leave the mode and the map as
  they are. The timer and the calls of \<open>normal_showcmd\<close> have no influence on the queue
  and are left out.
\<close>

record state =
  map_list :: "Map list"
  queue :: string
  resolved :: int
  mode_id :: char
  nomap :: bool
  sent :: "key list"

text \<open>
  Three things the C code does not check. The array \<open>queue\<close> has \<open>MAP_QUEUE_SIZE\<close>
  elements: writing more is \<open>QueueOverflow\<close>, with the length that the code sets, and
  reading behind them is \<open>QueueOverread\<close>, with the number of elements that the code
  reads. Taking a key from an empty queue is \<open>QueueUnderflow\<close>.
\<close>

datatype map_error = QueueOverflow nat | QueueOverread nat | QueueUnderflow

subsection \<open>convert_keys\<close>

definition keys :: "header \<Rightarrow> (string \<times> nat \<times> string \<times> nat) list" where
  \<comment> \<open>the table \<open>keys\<close> of \<open>convert_keylabel\<close>: label, len, ch, chlen\<close>
  "keys h =
   [(''<CR>'', 4, [CHR 0x0A], 1),
    (''<Tab>'', 5, [CHR 0x09], 1),
    (''<S-Tab>'', 7, CSI h # ''kB'', 3),
    (''<Esc>'', 5, [CHR 0x1B], 1),
    (''<Up>'', 4, CSI h # ''ku'', 3),
    (''<Down>'', 6, CSI h # ''kd'', 3),
    (''<Left>'', 6, CSI h # ''kl'', 3),
    (''<Right>'', 7, CSI h # ''kr'', 3),
    (''<F1>'', 4, CSI h # ''k1'', 3),
    (''<F2>'', 4, CSI h # ''k2'', 3),
    (''<F3>'', 4, CSI h # ''k3'', 3),
    (''<F4>'', 4, CSI h # ''k4'', 3),
    (''<F5>'', 4, CSI h # ''k5'', 3),
    (''<F6>'', 4, CSI h # ''k6'', 3),
    (''<F7>'', 4, CSI h # ''k7'', 3),
    (''<F8>'', 4, CSI h # ''k8'', 3),
    (''<F9>'', 4, CSI h # ''k9'', 3),
    (''<F10>'', 5, CSI h # ''k;'', 3),
    (''<F11>'', 5, CSI h # ''F1'', 3),
    (''<F12>'', 5, CSI h # ''F2'', 3)]"

definition convert_keylabel :: "header \<Rightarrow> string \<Rightarrow> string" where
  \<comment> \<open>the argument is the \<open>inlen\<close> characters at \<open>in\<close>; the result has \<open>*len\<close> characters,
      none if no label matches\<close>
  "convert_keylabel h tok =
     (case find (\<lambda>(label, len, ch, chlen). length tok = len \<and> strncmp0 label tok (length tok))
                (keys h) of
        None \<Rightarrow> []
      | Some (label, len, ch, chlen) \<Rightarrow> take chlen ch)"

function find_symlen :: "string \<Rightarrow> nat \<Rightarrow> nat" where
  \<comment> \<open>the \<open>do ... while (p[symlen++] != '>')\<close> loop; \<open>p\<close> ends where the input ends\<close>
  "find_symlen p symlen =
     (if symlen \<ge> length p \<or> p ! symlen = CHR ''<'' \<or> p ! symlen = CHR '' '' then symlen
      else if p ! symlen \<noteq> CHR ''>'' then find_symlen p (symlen + 1)
      else symlen + 1)"
  by pat_completeness auto
termination
  by (relation "measure (\<lambda>(p, symlen). length p - symlen)") auto

declare find_symlen.simps [simp del]

lemma find_symlen_ge: "symlen \<le> find_symlen p symlen"
proof (induction p symlen rule: find_symlen.induct)
  case (1 p symlen)
  then show ?case by (subst find_symlen.simps) (auto simp: Suc_leD)
qed

definition ctrl_key :: "string \<Rightarrow> nat \<Rightarrow> string" where
  \<comment> \<open>the test for \<open><C-X>\<close>: the one character \<open>ch\<close>, or nothing\<close>
  "ctrl_key p symlen =
     (if symlen = 5 \<and> p ! 2 = CHR ''-'' \<and> p ! 1 = CHR ''C'' then
        (if 0x41 \<le> (of_char (p ! 3) :: nat) \<and> (of_char (p ! 3) :: nat) \<le> 0x5d
         then [char_of ((of_char (p ! 3) :: nat) - 0x40)]
         else if 0x61 \<le> (of_char (p ! 3) :: nat) \<and> (of_char (p ! 3) :: nat) \<le> 0x7a
         then [char_of ((of_char (p ! 3) :: nat) - 0x60)]
         else [])
      else [])"

definition raw_keys :: "header \<Rightarrow> string \<Rightarrow> nat \<Rightarrow> string" where
  \<comment> \<open>what is appended for the \<open>symlen\<close> characters at \<open>p\<close>, which start with \<open><\<close>\<close>
  "raw_keys h p symlen =
     (let raw = (if p ! (symlen - 1) = CHR ''>''
                 then (if ctrl_key p symlen = [] then convert_keylabel h (take symlen p)
                       else ctrl_key p symlen)
                 else [])
      in if raw = [] then take symlen p else raw)"

function convert_keys :: "header \<Rightarrow> string \<Rightarrow> string" where
  "convert_keys h [] = []"
| "convert_keys h (c # cs) =
     (if c \<noteq> CHR ''<'' then c # convert_keys h cs
      else raw_keys h (c # cs) (find_symlen (c # cs) 1)
           @ convert_keys h (drop (find_symlen (c # cs) 1) (c # cs)))"
  by pat_completeness auto
termination
proof (relation "measure (\<lambda>(h, p). length p)")
  show "wf (measure (\<lambda>(h, p). length p))" by simp
next
  fix h :: header and c :: char and cs :: string
  assume "c \<noteq> CHR ''<''"
  then show "((h, cs), (h, c # cs)) \<in> measure (\<lambda>(h, p). length p)" by simp
next
  fix h :: header and c :: char and cs :: string
  assume "\<not> c \<noteq> CHR ''<''"
  have "1 \<le> find_symlen (c # cs) 1" by (rule find_symlen_ge)
  then show "((h, drop (find_symlen (c # cs) 1) (c # cs)), (h, c # cs))
               \<in> measure (\<lambda>(h, p). length p)" by simp
qed

subsection \<open>keyval_to_string\<close>

text \<open>Key symbols and modifier masks of GDK (\<open>gdkkeysyms.h\<close>, \<open>gdktypes.h\<close>).\<close>

definition GDK_Tab :: nat where "GDK_Tab = 0xff09"
definition GDK_KP_Tab :: nat where "GDK_KP_Tab = 0xff89"
definition GDK_ISO_Left_Tab :: nat where "GDK_ISO_Left_Tab = 0xfe20"
definition GDK_Linefeed :: nat where "GDK_Linefeed = 0xff0a"
definition GDK_Return :: nat where "GDK_Return = 0xff0d"
definition GDK_ISO_Enter :: nat where "GDK_ISO_Enter = 0xfe34"
definition GDK_3270_Enter :: nat where "GDK_3270_Enter = 0xfd1e"
definition GDK_Escape :: nat where "GDK_Escape = 0xff1b"
definition GDK_BackSpace :: nat where "GDK_BackSpace = 0xff08"
definition GDK_CONTROL_MASK :: nat where "GDK_CONTROL_MASK = 4"

definition utf_char2bytes :: "nat \<Rightarrow> string" where
  "utf_char2bytes c =
     (if c < 0x80 then [char_of c]
      else if c < 0x800 then
        [char_of (0xc0 + drop_bit 6 c), char_of (0x80 + (c AND 0x3f))]
      else if c < 0x10000 then
        [char_of (0xe0 + drop_bit 12 c), char_of (0x80 + (drop_bit 6 c AND 0x3f)),
         char_of (0x80 + (c AND 0x3f))]
      else if c < 0x200000 then
        [char_of (0xf0 + drop_bit 18 c), char_of (0x80 + (drop_bit 12 c AND 0x3f)),
         char_of (0x80 + (drop_bit 6 c AND 0x3f)), char_of (0x80 + (c AND 0x3f))]
      else if c < 0x4000000 then
        [char_of (0xf8 + drop_bit 24 c), char_of (0x80 + (drop_bit 18 c AND 0x3f)),
         char_of (0x80 + (drop_bit 12 c AND 0x3f)), char_of (0x80 + (drop_bit 6 c AND 0x3f)),
         char_of (0x80 + (c AND 0x3f))]
      else
        [char_of (0xfc + drop_bit 30 c), char_of (0x80 + (drop_bit 24 c AND 0x3f)),
         char_of (0x80 + (drop_bit 18 c AND 0x3f)), char_of (0x80 + (drop_bit 12 c AND 0x3f)),
         char_of (0x80 + (drop_bit 6 c AND 0x3f)), char_of (0x80 + (c AND 0x3f))])"

text \<open>
  \<open>gdk_keyval_to_unicode\<close> belongs to GDK; it is the parameter \<open>to_unicode\<close>. The result
  of \<open>keyval_to_string\<close> is the \<open>len\<close> bytes written to \<open>string\<close>.
\<close>

definition keyval_to_string :: "header \<Rightarrow> (nat \<Rightarrow> nat) \<Rightarrow> nat \<Rightarrow> nat \<Rightarrow> string" where
  "keyval_to_string h to_unicode keyval st =
     (if keyval = GDK_Tab \<or> keyval = GDK_KP_Tab \<or> keyval = GDK_ISO_Left_Tab then [KEY_TAB h]
      else if keyval = GDK_Linefeed then [KEY_NL h]
      else if keyval = GDK_Return \<or> keyval = GDK_ISO_Enter \<or> keyval = GDK_3270_Enter
      then [KEY_CR h]
      else if keyval = GDK_Escape then [KEY_ESC h]
      else if keyval = GDK_BackSpace then [KEY_BS h]
      else
        (let uc = to_unicode keyval in
         if uc \<noteq> 0 then
           (if st AND GDK_CONTROL_MASK \<noteq> 0 \<and> uc \<ge> 0x20 \<and> uc < 0x80 then
              (if uc \<ge> 0x40 then [char_of (uc AND 0x1f)]
               else if uc = 0x38 then [KEY_BS h]
               else [char_of uc])
            else utf_char2bytes uc)
         else []))"

subsection \<open>The map list\<close>

definition map_insert :: "header \<Rightarrow> string \<Rightarrow> string \<Rightarrow> char \<Rightarrow> state \<Rightarrow> state" where
  "map_insert h i m md st =
     st\<lparr>map_list := \<lparr>in_keys = convert_keys h i, inlen = length (convert_keys h i),
                      mapped = convert_keys h m, mappedlen = length (convert_keys h m),
                      mode = md\<rparr> # map_list st\<rparr>"

subsection \<open>map_handle_keys\<close>

function drain :: "header \<Rightarrow> state \<Rightarrow> map_error + state" where
  \<comment> \<open>the loop \<open>while (map.resolved > 0)\<close>\<close>
  "drain h st =
     (if resolved st > 0 then
        (case queue st of
           [] \<Rightarrow> Inl QueueUnderflow
         | c # cs \<Rightarrow>
             if c = CSI h \<and> length (queue st) \<ge> 3
             then drain h (st\<lparr>resolved := resolved st - 3,
                              queue := drop 3 (queue st),
                              nomap := False,
                              sent := sent st @ [Termcap (queue st ! 1) (queue st ! 2)]\<rparr>)
             else drain h (st\<lparr>resolved := resolved st - 1,
                              queue := cs,
                              nomap := False,
                              sent := sent st @ [Key c]\<rparr>))
      else Inr st)"
  by pat_completeness auto
termination
  by (relation "measure (\<lambda>(h, st). nat (resolved st))") auto

declare drain.simps [simp del]

fun find_match ::
  "bool \<Rightarrow> char \<Rightarrow> string \<Rightarrow> Map list \<Rightarrow> nat \<Rightarrow> Map option \<Rightarrow> nat \<times> Map option" where
  \<comment> \<open>the loop over \<open>map.list\<close>: \<open>(ambiguous, match)\<close>\<close>
  "find_match timeout md q [] ambiguous match = (ambiguous, match)"
| "find_match timeout md q (m # l) ambiguous match =
     (if mode m \<noteq> md then find_match timeout md q l ambiguous match
      else find_match timeout md q l
             (if \<not> timeout \<and> inlen m > length q \<and> strncmp0 (in_keys m) q (length q)
              then ambiguous + 1 else ambiguous)
             (if inlen m \<le> length q \<and> strncmp0 (in_keys m) q (inlen m)
                 \<and> (case match of None \<Rightarrow> True | Some b \<Rightarrow> inlen b < inlen m)
              then Some m else match))"

definition strncpy :: "string \<Rightarrow> nat \<Rightarrow> string" where
  \<comment> \<open>the \<open>n\<close> characters that \<open>strncpy(dest, src, n)\<close> writes\<close>
  "strncpy src n = take n (takeWhile (\<lambda>c. c \<noteq> CHR 0x00) src @ replicate n (CHR 0x00))"

text \<open>
  The replacement of a match. The two shifting loops move the characters behind the
  matched ones to the place behind the mapped ones, \<open>strncpy\<close> writes the mapped ones,
  \<open>qlen\<close> changes by the difference. Nothing keeps the new length within the array.
  The loop that shifts to the left runs while \<open>i < map.qlen\<close>, so its source index
  \<open>j\<close> runs up to \<open>qlen + inlen - mappedlen\<close>: it reads behind the characters of the
  queue (whatever it reads there ends up behind the new \<open>qlen\<close>), and behind the array
  when the queue is nearly full.
\<close>

definition splice :: "header \<Rightarrow> Map \<Rightarrow> state \<Rightarrow> map_error + state" where
  "splice h m st =
     (if length (queue st) + mappedlen m - inlen m > MAP_QUEUE_SIZE h
      then Inl (QueueOverflow (length (queue st) + mappedlen m - inlen m))
      else if inlen m > mappedlen m
              \<and> length (queue st) + (inlen m - mappedlen m) > MAP_QUEUE_SIZE h
      then Inl (QueueOverread (length (queue st) + (inlen m - mappedlen m)))
      else Inr (st\<lparr>queue := strncpy (mapped m) (mappedlen m) @ drop (inlen m) (queue st),
                   resolved := (if inlen m \<le> mappedlen m then int (inlen m)
                                else int (mappedlen m))\<rparr>))"

text \<open>
  The same on the array: \<open>a\<close> is the whole array \<open>map.queue\<close>, of which the first \<open>qlen\<close>
  elements are the queue. \<open>grow\<close> is the loop that makes room, \<open>shrink\<close> the loop that
  deletes keys, with their indices \<open>i\<close> and \<open>j\<close>; \<open>splice_array\<close> gives the array and
  \<open>qlen\<close> behind \<open>strncpy\<close>. The lemma \<open>splice_on_array\<close> below shows that \<open>splice\<close>
  describes the queue they leave.
\<close>

function grow :: "nat \<Rightarrow> nat \<Rightarrow> nat \<Rightarrow> string \<Rightarrow> string" where
  \<comment> \<open>\<open>for (...; j > match->inlen; ) map.queue[--i] = map.queue[--j];\<close>\<close>
  "grow i j n a = (if j > n then grow (i - 1) (j - 1) n (a[i - 1 := a ! (j - 1)]) else a)"
  by pat_completeness auto
termination
  by (relation "measure (\<lambda>(i, j, n, a). j)") auto

function shrink :: "nat \<Rightarrow> nat \<Rightarrow> nat \<Rightarrow> string \<Rightarrow> string" where
  \<comment> \<open>\<open>for (...; i < map.qlen; ) map.queue[i++] = map.queue[j++];\<close>\<close>
  "shrink i j qlen a = (if i < qlen then shrink (i + 1) (j + 1) qlen (a[i := a ! j]) else a)"
  by pat_completeness auto
termination
  by (relation "measure (\<lambda>(i, j, qlen, a). qlen - i)") auto

declare grow.simps [simp del] shrink.simps [simp del]

definition splice_array :: "Map \<Rightarrow> string \<Rightarrow> nat \<Rightarrow> string \<times> nat" where
  "splice_array m a qlen =
     (let a1 = (if inlen m < mappedlen m
                then grow (qlen + mappedlen m - inlen m) qlen (inlen m) a
                else if inlen m > mappedlen m
                then shrink (mappedlen m) (inlen m) qlen a
                else a)
      in (strncpy (mapped m) (mappedlen m) @ drop (mappedlen m) a1,
          qlen + mappedlen m - inlen m))"

text \<open>
  The loop \<open>while (true)\<close>. It need not end (a rule can produce its own input), so the
  function is partial: \<open>None\<close> is a loop that runs forever.
\<close>

partial_function (option) map_loop ::
  "header \<Rightarrow> bool \<Rightarrow> bool \<Rightarrow> Map option \<Rightarrow> state \<Rightarrow> (map_error + MapState \<times> state) option"
where
  "map_loop h use_map timeout match st =
     (case drain h st of
        Inl e \<Rightarrow> Some (Inl e)
      | Inr st1 \<Rightarrow>
          if queue st1 = []
          then Some (Inr (if match \<noteq> None then MAP_DONE else MAP_NOMATCH, st1\<lparr>resolved := 0\<rparr>))
          else
            (case (if use_map \<and> \<not> nomap st1
                   then find_match timeout (mode_id st1) (queue st1) (map_list st1) 0 None
                   else (0, None)) of
               (ambiguous, match') \<Rightarrow>
                 if ambiguous \<noteq> 0 then Some (Inr (MAP_AMBIGUOUS, st1))
                 else
                   (case match' of
                      Some m \<Rightarrow>
                        (case splice h m st1 of
                           Inl e \<Rightarrow> Some (Inl e)
                         | Inr st2 \<Rightarrow> map_loop h use_map timeout match' st2)
                    | None \<Rightarrow> map_loop h use_map timeout match' (st1\<lparr>resolved := 1\<rparr>))))"

definition map_handle_keys ::
  "header \<Rightarrow> string \<Rightarrow> bool \<Rightarrow> state \<Rightarrow> (map_error + MapState \<times> state) option" where
  \<comment> \<open>\<open>keylen\<close> is the length of \<open>keys\<close>; no keys are a timeout\<close>
  "map_handle_keys h ks use_map st =
     map_loop h use_map (ks = []) None
       (st\<lparr>queue := queue st @ take (MAP_QUEUE_SIZE h - length (queue st)) ks\<rparr>)"

definition do_timeout :: "header \<Rightarrow> state \<Rightarrow> (map_error + MapState \<times> state) option" where
  "do_timeout h st = map_handle_keys h [] True st"

section \<open>Notions used in the statements\<close>

subsection \<open>For ex.c\<close>

definition lead :: "string \<Rightarrow> string" where
  \<comment> \<open>the input behind the leading colons and blanks that \<open>parse\<close> removes\<close>
  "lead input = dropWhile (\<lambda>c. c = CHR '':'' \<or> c = CHR '' '') input"

definition decimal :: "string \<Rightarrow> nat" where
  \<comment> \<open>the number that a string of decimal digits denotes\<close>
  "decimal ds = foldl (\<lambda>n c. n * 10 + (of_char c - 48)) 0 ds"

definition hit :: "string \<Rightarrow> ExInfo \<Rightarrow> bool" where
  \<comment> \<open>the test \<open>commands[i].name[len - 1] == **input\<close> of \<open>scan\<close>\<close>
  "hit cmd e = (name_at (name e) (length cmd - 1) = last cmd)"

definition stop :: "string \<Rightarrow> ExInfo \<Rightarrow> bool" where
  \<comment> \<open>the test of \<open>scan\<close> that ends the loop\<close>
  "stop cmd e = (length cmd > 1 \<and> \<not> strncmp0 (name e) cmd (length cmd - 1))"

definition selected :: "string \<Rightarrow> nat \<Rightarrow> bool" where
  \<comment> \<open>\<open>first\<close> is the first entry of the table whose name starts with \<open>p\<close>\<close>
  "selected p first \<longleftrightarrow>
     first < length commands \<and> prefix p (name (commands ! first))
     \<and> (\<forall>j<first. \<not> prefix p (name (commands ! j)))"

definition succeed :: "unit ext" where
  \<comment> \<open>operations that always succeed, for the examples\<close>
  "succeed w a = (True, w)"

subsection \<open>For map.c\<close>

definition header_example :: header where
  \<comment> \<open>header constants for the examples: a queue of 500 characters, CSI as in vim,
      the ASCII codes of the control keys\<close>
  "header_example =
     \<lparr>MAP_QUEUE_SIZE = 500, CSI = CHR 0x9B, KEY_TAB = CHR 0x09, KEY_NL = CHR 0x0A,
      KEY_CR = CHR 0x0D, KEY_ESC = CHR 0x1B, KEY_BS = CHR 0x08\<rparr>"

definition init_state :: "char \<Rightarrow> state" where
  \<comment> \<open>the static \<open>map\<close> at program start, in the mode \<open>md\<close> without \<open>FLAG_NOMAP\<close>\<close>
  "init_state md =
     \<lparr>map_list = [], queue = [], resolved = 0, mode_id = md, nomap = False, sent = []\<rparr>"

definition rule :: "string \<Rightarrow> string \<Rightarrow> char \<Rightarrow> Map" where
  \<comment> \<open>the \<open>Map\<close> that \<open>map_insert\<close> makes of two converted key strings\<close>
  "rule i m md = \<lparr>in_keys = i, inlen = length i, mapped = m, mappedlen = length m, mode = md\<rparr>"

definition exact :: "char \<Rightarrow> string \<Rightarrow> Map \<Rightarrow> bool" where
  \<comment> \<open>the test of \<open>find_match\<close> for a complete match in the mode \<open>md\<close>\<close>
  "exact md q m \<longleftrightarrow>
     mode m = md \<and> inlen m \<le> length q \<and> strncmp0 (in_keys m) q (inlen m)"

definition within :: "header \<Rightarrow> state \<Rightarrow> bool" where
  \<comment> \<open>the queue fits into the array, and not more keys are resolved than it has\<close>
  "within h st \<longleftrightarrow>
     length (queue st) \<le> MAP_QUEUE_SIZE h \<and> resolved st \<le> int (length (queue st))"

definition kept :: "header \<Rightarrow> map_error + MapState \<times> state \<Rightarrow> bool" where
  \<comment> \<open>a result of \<open>map_handle_keys\<close>: the replacement left the array, or the queue
      fits into it and no key is left resolved\<close>
  "kept h y =
     (case y of
        Inl e \<Rightarrow> \<exists>n. e = QueueOverflow n \<or> e = QueueOverread n
      | Inr (r, st') \<Rightarrow> length (queue st') \<le> MAP_QUEUE_SIZE h \<and> resolved st' \<le> 0)"

lemmas ex_eval =
  parse_def parse_count_def peek_def isdigit_def skip_whitespace_def parse_command_name_def
  commands_def mk_def name_at_def EX_FLAG_NONE_def EX_FLAG_LHS_def EX_FLAG_RHS_def
  parse_rhs_def parse_lhs_def quote_def execute_def ex_run_string_def arg0_def succeed_def

lemmas gdk_keys =
  GDK_Tab_def GDK_KP_Tab_def GDK_ISO_Left_Tab_def GDK_Linefeed_def GDK_Return_def
  GDK_ISO_Enter_def GDK_3270_Enter_def GDK_Escape_def GDK_BackSpace_def GDK_CONTROL_MASK_def

lemmas map_eval =
  map_handle_keys_def do_timeout_def map_loop.simps drain.simps splice_def strncpy_def
  map_insert_def init_state_def rule_def header_example_def find_symlen.simps raw_keys_def
  ctrl_key_def convert_keylabel_def keys_def

section \<open>The count of an ex command\<close>

lemma digit_value: "isdigit c \<Longrightarrow> (of_char c :: 32 word) - 48 = of_nat (of_char c - 48)"
  by (simp add: isdigit_def of_nat_diff of_nat_of_char)

lemma decimal_snoc: "decimal (ds @ [d]) = decimal ds * 10 + (of_char d - 48)"
  by (simp add: decimal_def)

lemma count_loop_app:
  "\<forall>c\<in>set ds. isdigit c \<Longrightarrow>
   count_loop (ds @ rest) n = count_loop rest (n * 10 ^ length ds + of_nat (decimal ds))"
proof (induction ds arbitrary: rest rule: rev_induct)
  case Nil
  then show ?case by (simp add: decimal_def)
next
  case (snoc d ds)
  have d: "isdigit d" using snoc.prems by simp
  have "count_loop ((ds @ [d]) @ rest) n
          = count_loop (d # rest) (n * 10 ^ length ds + of_nat (decimal ds))"
    using snoc.prems snoc.IH [of "d # rest"] by simp
  also have "\<dots> = count_loop rest
                     ((n * 10 ^ length ds + of_nat (decimal ds)) * 10 + (of_char d - 48))"
    using d by simp
  also have "(n * 10 ^ length ds + of_nat (decimal ds)) * 10 + (of_char d - 48)
               = n * 10 ^ length (ds @ [d]) + of_nat (decimal (ds @ [d]))"
    by (simp add: decimal_snoc digit_value [OF d] algebra_simps)
  finally show ?case .
qed

lemma count_loop_stop: "\<not> isdigit (peek rest) \<Longrightarrow> count_loop rest n = (rest, n)"
  by (cases rest) (auto simp: peek_def)

lemma parse_command_name_count:
  "parse_command_name s a = Inr (s', a') \<Longrightarrow> count a' = count a"
  by (auto simp: parse_command_name_def split: sum.splits prod.splits if_splits)

lemma parse_lhs_count: "parse_lhs s a = Inr (s', a') \<Longrightarrow> count a' = count a"
  by (auto simp: parse_lhs_def split: sum.splits prod.splits if_splits)

lemma parse_rhs_count: "parse_rhs s a = Inr (s', a') \<Longrightarrow> count a' = count a"
  by (auto simp: parse_rhs_def split: sum.splits prod.splits if_splits)

lemma parse_count_of:
  assumes "parse s a = Inr (s', a')"
  shows "count a' = count (snd (parse_count (lead s) (a\<lparr>lhs := [], rhs := []\<rparr>)))"
proof -
  obtain in1 arg1 where c: "parse_count (lead s) (a\<lparr>lhs := [], rhs := []\<rparr>) = (in1, arg1)"
    by (cases "parse_count (lead s) (a\<lparr>lhs := [], rhs := []\<rparr>)")
  from assms c obtain in2 arg2
    where n: "parse_command_name (skip_whitespace in1) arg1 = Inr (in2, arg2)"
    by (auto simp: parse_def lead_def split: if_splits sum.splits)
  let ?l = "if flags (commands ! idx arg2) AND EX_FLAG_LHS \<noteq> 0
            then parse_lhs (skip_whitespace in2) arg2 else Inr (skip_whitespace in2, arg2)"
  from assms c n obtain in3 arg3 where l: "?l = Inr (in3, arg3)"
    by (auto simp: parse_def lead_def split: if_splits sum.splits)
  let ?r = "if flags (commands ! idx arg2) AND EX_FLAG_RHS \<noteq> 0
            then parse_rhs (skip_whitespace in3) arg3 else Inr (skip_whitespace in3, arg3)"
  from assms c n l obtain in4 where r: "?r = Inr (in4, a')"
    by (auto simp: parse_def lead_def split: if_splits sum.splits)
  have "count arg2 = count arg1" using n by (rule parse_command_name_count)
  moreover have "count arg3 = count arg2"
    using l by (auto split: if_splits dest: parse_lhs_count)
  moreover have "count a' = count arg3"
    using r by (auto split: if_splits dest: parse_rhs_count)
  ultimately show ?thesis using c by simp
qed

lemma count_loop_digits:
  "count_loop s n =
     (dropWhile isdigit s,
      n * 10 ^ length (takeWhile isdigit s) + of_nat (decimal (takeWhile isdigit s)))"
proof -
  let ?D = "takeWhile isdigit s" and ?R = "dropWhile isdigit s"
  have "count_loop (?D @ ?R) n = count_loop ?R (n * 10 ^ length ?D + of_nat (decimal ?D))"
    by (rule count_loop_app) (auto dest: set_takeWhileD)
  moreover have "\<not> isdigit (peek ?R)"
  proof (cases ?R)
    case Nil
    show ?thesis unfolding Nil by (simp add: peek_def isdigit_def)
  next
    case (Cons c cs)
    then have "\<not> isdigit (hd ?R)" using hd_dropWhile [of isdigit s] by simp
    with Cons show ?thesis by (simp add: peek_def)
  qed
  ultimately show ?thesis by (simp add: count_loop_stop)
qed

text \<open>
  Claim C10. \<open>ex_run_string\<close> hands the \<open>ExArg\<close> that one segment of the line has filled
  to the \<open>parse\<close> of the next segment (see \<open>ex_loop\<close>). First, what \<open>parse_count\<close>
  returns on every input \<open>s\<close> and every \<open>ExArg\<close>: if \<open>s\<close> starts with a digit, all the
  digits \<open>D\<close> at its head are consumed and the count is the count \<open>C\<close> found in the
  \<open>ExArg\<close>, times \<open>10 ^ length D\<close>, plus the number \<open>D\<close>; the count is not reset first.
  If \<open>s\<close> starts with no digit, nothing is consumed and the count is 0. Second, this is
  the count of the parsed command: when \<open>parse\<close> succeeds on a segment, the count that it
  returns is the one just described, for the digits behind the leading colons and
  blanks of the segment. The arithmetic is that of 32 bits.
\<close>

theorem count_accumulates:
  "parse_count s a =
     (if isdigit (peek s)
      then (dropWhile isdigit s,
            a\<lparr>count := count a * 10 ^ length (takeWhile isdigit s)
                           + of_nat (decimal (takeWhile isdigit s))\<rparr>)
      else (s, a\<lparr>count := 0\<rparr>))
   \<and> (parse input arg = Inr (rest, arg') \<longrightarrow>
        count arg' =
          (if isdigit (peek (lead input))
           then count arg * 10 ^ length (takeWhile isdigit (lead input))
                  + of_nat (decimal (takeWhile isdigit (lead input)))
           else 0))"
proof (intro conjI impI)
  show "parse_count s a =
     (if isdigit (peek s)
      then (dropWhile isdigit s,
            a\<lparr>count := count a * 10 ^ length (takeWhile isdigit s)
                           + of_nat (decimal (takeWhile isdigit s))\<rparr>)
      else (s, a\<lparr>count := 0\<rparr>))"
    by (simp add: parse_count_def count_loop_digits)
next
  assume p: "parse input arg = Inr (rest, arg')"
  show "count arg' =
          (if isdigit (peek (lead input))
           then count arg * 10 ^ length (takeWhile isdigit (lead input))
                  + of_nat (decimal (takeWhile isdigit (lead input)))
           else 0)"
    using parse_count_of [OF p] by (simp add: parse_count_def count_loop_digits)
qed

text \<open>
  The lines \<open>:2open a|3open b\<close> and \<open>:12open a|34open b\<close>, with operations that
  succeed: the second command is dispatched with the count 23 and 1234.
\<close>

lemma pipeline_count_example:
  "ex_run_string succeed '':2open a|3open b'' ()
     = (None, (),
        [(arg0\<lparr>count := 2, idx := 9, arg_code := EX_OPEN, arg_name := ''open'',
               rhs := ''a''\<rparr>, True),
         (arg0\<lparr>count := 23, idx := 9, arg_code := EX_OPEN, arg_name := ''open'',
               rhs := ''b''\<rparr>, True)])"
  by (simp add: ex_eval)

lemma pipeline_count_digits_example:
  "ex_run_string succeed '':12open a|34open b'' ()
     = (None, (),
        [(arg0\<lparr>count := 12, idx := 9, arg_code := EX_OPEN, arg_name := ''open'',
               rhs := ''a''\<rparr>, True),
         (arg0\<lparr>count := 1234, idx := 9, arg_code := EX_OPEN, arg_name := ''open'',
               rhs := ''b''\<rparr>, True)])"
  by (simp add: ex_eval)

text \<open>
  The second segment of \<open>:12open a|34open b\<close>: \<open>parse\<close> finds the count 12 of the first
  segment in the \<open>ExArg\<close>, \<open>parse_count\<close> consumes both digits and leaves the count
  \<open>12 * 10 ^ 2 + 34 = 1234\<close>, and with this count the second command is dispatched.
\<close>

theorem count_accumulates_witness:
  "parse_count ''34open b'' (arg0\<lparr>count := 12\<rparr>) = (''open b'', arg0\<lparr>count := 1234\<rparr>)
   \<and> parse ''34open b'' (arg0\<lparr>count := 12\<rparr>)
     = Inr ([], arg0\<lparr>count := 1234, idx := 9, arg_code := EX_OPEN, arg_name := ''open'',
                     rhs := ''b''\<rparr>)
   \<and> count (arg0\<lparr>count := 1234, idx := 9, arg_code := EX_OPEN, arg_name := ''open'',
                  rhs := ''b''\<rparr>) = 12 * 10 ^ 2 + 34
   \<and> ex_run_string succeed '':12open a|34open b'' ()
     = (None, (),
        [(arg0\<lparr>count := 12, idx := 9, arg_code := EX_OPEN, arg_name := ''open'',
               rhs := ''a''\<rparr>, True),
         (arg0\<lparr>count := 1234, idx := 9, arg_code := EX_OPEN, arg_name := ''open'',
               rhs := ''b''\<rparr>, True)])
   \<and> ex_run_string succeed '':2open a|3open b'' ()
     = (None, (),
        [(arg0\<lparr>count := 2, idx := 9, arg_code := EX_OPEN, arg_name := ''open'',
               rhs := ''a''\<rparr>, True),
         (arg0\<lparr>count := 23, idx := 9, arg_code := EX_OPEN, arg_name := ''open'',
               rhs := ''b''\<rparr>, True)])"
proof -
  have p: "parse ''34open b'' (arg0\<lparr>count := 12\<rparr>)
     = Inr ([], arg0\<lparr>count := 1234, idx := 9, arg_code := EX_OPEN, arg_name := ''open'',
                     rhs := ''b''\<rparr>)"
    by (simp add: ex_eval)
  from count_accumulates [of "''34open b''" "arg0\<lparr>count := 12\<rparr>"
         "''34open b''" "arg0\<lparr>count := 12\<rparr>" "[]"
         "arg0\<lparr>count := 1234, idx := 9, arg_code := EX_OPEN, arg_name := ''open'',
                rhs := ''b''\<rparr>"]
       p pipeline_count_digits_example pipeline_count_example
  show ?thesis
    by (simp add: lead_def peek_def isdigit_def decimal_def arg0_def)
qed

text \<open>
  Claim C8, as the code has it. The count is a plain \<open>int\<close>, and \<open>parse_count\<close> stores 0
  in it when the command starts with no digit: there is no state "unset". \<open>:open\<close> and
  \<open>:0open\<close> give the same \<open>ExArg\<close>.
\<close>

theorem unset_count_counterexample:
  "parse '':open'' arg0
     = Inr ([], arg0\<lparr>count := 0, idx := 9, arg_code := EX_OPEN, arg_name := ''open''\<rparr>)
   \<and> parse '':0open'' arg0
     = Inr ([], arg0\<lparr>count := 0, idx := 9, arg_code := EX_OPEN, arg_name := ''open''\<rparr>)"
  by (simp add: ex_eval)

text \<open>
  Claim C8, amended: when a command starts (behind colons and blanks) with no digit,
  the count of the parsed command is 0, whatever it was before.
\<close>

theorem no_digits_count_zero:
  assumes "parse input arg = Inr (rest, arg')" and "\<not> isdigit (peek (lead input))"
  shows "count arg' = 0"
  using parse_count_of [OF assms(1)] assms(2) by (simp add: parse_count_def)

theorem no_digits_count_zero_witness:
  "parse '':open'' (arg0\<lparr>count := 7\<rparr>)
     = Inr ([], arg0\<lparr>count := 0, idx := 9, arg_code := EX_OPEN, arg_name := ''open''\<rparr>)
   \<and> \<not> isdigit (peek (lead '':open''))
   \<and> count (arg0\<lparr>count := 0, idx := 9, arg_code := EX_OPEN, arg_name := ''open''\<rparr>) = 0"
proof -
  have p: "parse '':open'' (arg0\<lparr>count := 7\<rparr>)
     = Inr ([], arg0\<lparr>count := 0, idx := 9, arg_code := EX_OPEN, arg_name := ''open''\<rparr>)"
    by (simp add: ex_eval)
  have d: "\<not> isdigit (peek (lead '':open''))"
    by (simp add: lead_def peek_def isdigit_def)
  from no_digits_count_zero [OF p d] p d show ?thesis by simp
qed

section \<open>Failures in a line of commands\<close>









section \<open>A backslash at the end of the input\<close>

lemma rhs_escaped_space: "rhs_loop (quote # CHR '' '' # s) acc = rhs_loop s (acc @ '' '')"
  by (simp add: quote_def)

lemma rhs_escaped_other:
  "d \<noteq> CHR '' '' \<Longrightarrow> rhs_loop (quote # d # s) acc = rhs_loop s (acc @ [quote, d])"
  by (simp add: quote_def)

lemma lhs_escaped_space: "lhs_loop (quote # CHR '' '' # s) acc = lhs_loop s (acc @ '' '')"
  by (simp add: quote_def)

lemma lhs_escaped_other:
  "d \<noteq> CHR '' '' \<Longrightarrow> lhs_loop (quote # d # s) acc = lhs_loop s (acc @ [quote, d])"
  by (simp add: quote_def)

text \<open>
  Claim C7. A backslash before a blank gives the blank, a backslash before another
  character gives both (the four lemmas above). For a backslash at the end of the input
  the claim is what the comment in the source says ("if input ends here - use only the
  backslash"), but the code does not do it: it appends the backslash and the terminating
  NUL and goes on reading behind the terminator, in the rhs (\<open>:open a\<close> with a
  backslash behind it) and in the lhs (\<open>:nunmap a\<close> with a backslash behind it).
\<close>

theorem trailing_backslash_evaluation:
  "ex_run_string ext ('':open a'' @ [quote]) w
     = (Some (ReadPastTerminator (''a'' @ [quote, CHR 0x00])), w, [])
   \<and> ex_run_string ext ('':nunmap a'' @ [quote]) w
     = (Some (ReadPastTerminator (''a'' @ [quote, CHR 0x00])), w, [])"
  by (simp add: ex_eval)

section \<open>The command that an abbreviation selects\<close>

lemma strncmp0_take:
  "CHR 0x00 \<notin> set (take n t) \<Longrightarrow> n \<le> length t \<Longrightarrow>
   strncmp0 s t n \<longleftrightarrow> take n s = take n t"
proof (induction s arbitrary: t n)
  case Nil
  then show ?case by (cases t; cases n) auto
next
  case (Cons a s)
  show ?case
  proof (cases n)
    case 0
    then show ?thesis by simp
  next
    case (Suc k)
    with Cons.prems obtain b t' where t: "t = b # t'" by (cases t) auto
    with Cons.prems Suc have "b \<noteq> CHR 0x00" "CHR 0x00 \<notin> set (take k t')" "k \<le> length t'"
      by auto
    with Cons.IH [of k t'] t Suc show ?thesis by auto
  qed
qed

lemma prefix_take: "prefix p s \<longleftrightarrow> take (length p) s = p"
  by (metis append_eq_conv_conj prefix_def take_is_prefix)

lemma take_snoc_iff:
  "take (Suc k) n = cmd @ [c] \<longleftrightarrow> take k n = cmd \<and> k < length n \<and> n ! k = c"
  if "k = length cmd"
proof (cases "k < length n")
  case True
  then show ?thesis using that by (simp add: take_Suc_conv_app_nth)
next
  case False
  then have "length (take (Suc k) n) < length (cmd @ [c])" using that by simp
  then have "take (Suc k) n \<noteq> cmd @ [c]" by (metis less_irrefl)
  with False show ?thesis by simp
qed

lemma hit_iff_prefix:
  assumes "CHR 0x00 \<notin> set (cmd @ [c])"
  shows "\<not> stop (cmd @ [c]) e \<and> hit (cmd @ [c]) e \<longleftrightarrow> prefix (cmd @ [c]) (name e)"
proof -
  let ?n = "name e" and ?k = "length cmd"
  have "strncmp0 ?n (cmd @ [c]) ?k \<longleftrightarrow> take ?k ?n = take ?k (cmd @ [c])"
    by (rule strncmp0_take) (use assms in simp_all)
  then have s: "\<not> stop (cmd @ [c]) e \<longleftrightarrow> take ?k ?n = cmd"
    by (cases "cmd = []") (simp_all add: stop_def)
  have "c \<noteq> CHR 0x00" using assms by auto
  then have h: "hit (cmd @ [c]) e \<longleftrightarrow> ?k < length ?n \<and> ?n ! ?k = c"
    by (auto simp: hit_def name_at_def)
  have "prefix (cmd @ [c]) ?n \<longleftrightarrow> take (Suc ?k) ?n = cmd @ [c]"
    by (simp add: prefix_take)
  also have "\<dots> \<longleftrightarrow> take ?k ?n = cmd \<and> ?k < length ?n \<and> ?n ! ?k = c"
    by (rule take_snoc_iff) simp
  finally show ?thesis using s h by simp
qed

lemma scan_Cons:
  "scan cmd (e # es) i first matches =
     (if stop cmd e then (first, matches)
      else if hit cmd e
           then scan cmd es (Suc i) (if matches = 0 then i else first) (Suc matches)
           else scan cmd es (Suc i) first matches)"
  by (simp add: stop_def hit_def)

lemma scan_matched:
  "scan cmd es i first matches = (f, m) \<Longrightarrow> matches > 0 \<Longrightarrow> f = first \<and> m > 0"
proof (induction es arbitrary: i matches)
  case Nil
  then show ?case by simp
next
  case (Cons e es)
  then show ?case by (auto simp: scan_Cons simp del: scan.simps(2) split: if_splits)
qed

lemma scan_first:
  "scan cmd es i first 0 = (f, m) \<Longrightarrow> m > 0 \<Longrightarrow>
   \<exists>k<length es. f = i + k \<and> \<not> stop cmd (es ! k) \<and> hit cmd (es ! k)
                 \<and> (\<forall>j<k. \<not> hit cmd (es ! j))"
proof (induction es arbitrary: i)
  case Nil
  then show ?case by simp
next
  case (Cons e es)
  have ns: "\<not> stop cmd e" using Cons.prems
    by (auto simp: scan_Cons simp del: scan.simps(2) split: if_splits)
  show ?case
  proof (cases "hit cmd e")
    case True
    then have "scan cmd es (Suc i) i (Suc 0) = (f, m)" using Cons.prems(1) ns
      by (simp add: scan_Cons del: scan.simps(2))
    then have "f = i" using scan_matched by fastforce
    with True ns show ?thesis by (intro exI [of _ 0]) simp
  next
    case False
    then have "scan cmd es (Suc i) first 0 = (f, m)" using Cons.prems(1) ns
      by (simp add: scan_Cons del: scan.simps(2))
    from Cons.IH [OF this Cons.prems(2)] obtain k where
      k: "k < length es" "f = Suc i + k" "\<not> stop cmd (es ! k)" "hit cmd (es ! k)"
         "\<forall>j<k. \<not> hit cmd (es ! j)" by blast
    have "\<forall>j<Suc k. \<not> hit cmd ((e # es) ! j)"
      using False k(5) by (auto simp: less_Suc_eq_0_disj)
    with k show ?thesis by (intro exI [of _ "Suc k"]) simp
  qed
qed

lemma scan_selected:
  assumes P: "cmd = [] \<and> first = 0 \<or> cmd \<noteq> [] \<and> selected cmd first"
    and nul: "CHR 0x00 \<notin> set (cmd @ [c])"
    and sc: "scan (cmd @ [c]) (drop first commands) first first 0 = (f, m)" and m: "m > 0"
  shows "selected (cmd @ [c]) f"
proof -
  from scan_first [OF sc m] obtain k where
    k: "k < length (drop first commands)" "f = first + k"
       "\<not> stop (cmd @ [c]) (drop first commands ! k)"
       "hit (cmd @ [c]) (drop first commands ! k)"
       "\<forall>j<k. \<not> hit (cmd @ [c]) (drop first commands ! j)" by blast
  have f: "f < length commands" using k(1,2) by simp
  have "prefix (cmd @ [c]) (name (commands ! f))"
    using hit_iff_prefix [OF nul, of "commands ! f"] k by simp
  moreover have "\<not> prefix (cmd @ [c]) (name (commands ! j))" if "j < f" for j
  proof (cases "j < first")
    case True
    with P have "\<not> prefix cmd (name (commands ! j))" by (auto simp: selected_def)
    then show ?thesis using append_prefixD by blast
  next
    case False
    then have "j - first < k" using that k(2) by simp
    with k(5) have "\<not> hit (cmd @ [c]) (drop first commands ! (j - first))" by blast
    moreover have "drop first commands ! (j - first) = commands ! j"
      using False f that by simp
    ultimately show ?thesis using hit_iff_prefix [OF nul, of "commands ! j"] by auto
  qed
  ultimately show ?thesis using f by (simp add: selected_def)
qed


text \<open>
  The buffer \<open>cmd\<close> is large enough for this table: no name has more than 16
  characters, and a character is written only when the characters before it are the
  start of a name.
\<close>

lemma names_short: "\<forall>e\<in>set commands. length (name e) \<le> 16"
  by (simp add: commands_def mk_def)

lemma selected_short: "selected cmd first \<Longrightarrow> length cmd \<le> 16"
proof -
  assume s: "selected cmd first"
  then have "length cmd \<le> length (name (commands ! first))"
    by (auto simp: selected_def dest: prefix_length_le)
  moreover have "length (name (commands ! first)) \<le> 16"
    using s names_short by (auto simp: selected_def)
  ultimately show ?thesis by simp
qed

lemma name_loop_no_overflow:
  "cmd = [] \<and> first = 0 \<or> cmd \<noteq> [] \<and> selected cmd first \<Longrightarrow>
   CHR 0x00 \<notin> set cmd \<union> set s \<Longrightarrow>
   name_loop s cmd first \<noteq> Inl NameBufferOverflow"
proof (induction s arbitrary: cmd first)
  case Nil
  then have "length cmd \<le> 16" using selected_short by auto
  then show ?case by (auto split: prod.splits)
next
  case (Cons c cs)
  have l: "length cmd \<le> 16" using Cons.prems(1) selected_short by auto
  obtain f1 m1 where sc: "scan (cmd @ [c]) (drop first commands) first first 0 = (f1, m1)"
    by (cases "scan (cmd @ [c]) (drop first commands) first first 0")
  have nul: "CHR 0x00 \<notin> set (cmd @ [c])" using Cons.prems(2) by auto
  show ?case
  proof (cases "m1 > 0 \<and> cs \<noteq> [] \<and> hd cs \<noteq> CHR '' ''")
    case True
    have "selected (cmd @ [c]) f1" using scan_selected [OF Cons.prems(1) nul sc] True by simp
    then have P: "cmd @ [c] = [] \<and> f1 = 0 \<or> cmd @ [c] \<noteq> [] \<and> selected (cmd @ [c]) f1"
      by simp
    have "CHR 0x00 \<notin> set (cmd @ [c]) \<union> set cs" using Cons.prems(2) by auto
    from Cons.IH [OF P this] l sc True show ?thesis by simp
  next
    case False
    with l sc show ?thesis by auto
  qed
qed

lemma parse_command_name_no_overflow:
  "CHR 0x00 \<notin> set input \<Longrightarrow> parse_command_name input arg \<noteq> Inl NameBufferOverflow"
  using name_loop_no_overflow [of "[]" 0 input]
  by (auto simp: parse_command_name_def split: sum.splits prod.splits)



section \<open>Control keys in labels and in key events\<close>

lemma and_31: "(n::nat) AND 31 = n mod 32"
proof -
  have "n AND mask 5 = n mod 2 ^ 5" by (simp flip: take_bit_eq_mask add: take_bit_eq_mod)
  moreover have "mask 5 = (31::nat)" by (simp add: mask_eq_exp_minus_1)
  ultimately show ?thesis by simp
qed

lemma mod32_upper:
  assumes "64 \<le> n" "n < 96" shows "(n::nat) mod 32 = n - 64"
proof -
  have "n div 32 = 2" using assms by (intro div_nat_eqI) simp_all
  then show ?thesis using minus_div_mult_eq_mod [of n 32] by simp
qed

lemma mod32_lower:
  assumes "96 \<le> n" "n < 128" shows "(n::nat) mod 32 = n - 96"
proof -
  have "n div 32 = 3" using assms by (intro div_nat_eqI) simp_all
  then show ?thesis using minus_div_mult_eq_mod [of n 32] by simp
qed

lemma find_symlen_ctrl:
  assumes "X \<noteq> CHR ''<''" "X \<noteq> CHR '' ''" "X \<noteq> CHR ''>''"
  shows "find_symlen (CHR ''<'' # CHR ''C'' # CHR ''-'' # X # CHR ''>'' # rest) (Suc 0) = 5"
  using assms by (simp add: find_symlen.simps)

lemma convert_keys_ctrl:
  assumes "0x41 \<le> (of_char X :: nat) \<and> (of_char X :: nat) \<le> 0x5D
           \<or> 0x61 \<le> (of_char X :: nat) \<and> (of_char X :: nat) \<le> 0x7A"
  shows "convert_keys h (''<C-'' @ [X] @ ''>'')
           = [char_of ((of_char X :: nat) - (if (of_char X :: nat) \<le> 0x5D then 0x40 else 0x60))]"
proof -
  have x: "X \<noteq> CHR ''<''" "X \<noteq> CHR '' ''" "X \<noteq> CHR ''>''" using assms by auto
  have s: "find_symlen (CHR ''<'' # CHR ''C'' # CHR ''-'' # X # CHR ''>'' # []) (Suc 0) = 5"
    using x by (rule find_symlen_ctrl)
  show ?thesis using assms by (auto simp: s raw_keys_def ctrl_key_def)
qed

lemma keyval_to_string_ctrl:
  assumes "0x41 \<le> (of_char X :: nat) \<and> (of_char X :: nat) \<le> 0x5D
           \<or> 0x61 \<le> (of_char X :: nat) \<and> (of_char X :: nat) \<le> 0x7A"
    and "to_unicode keyval = of_char X"
    and "keyval \<notin> {GDK_Tab, GDK_KP_Tab, GDK_ISO_Left_Tab, GDK_Linefeed, GDK_Return,
                    GDK_ISO_Enter, GDK_3270_Enter, GDK_Escape, GDK_BackSpace}"
    and "st AND GDK_CONTROL_MASK \<noteq> 0"
  shows "keyval_to_string h to_unicode keyval st
           = [char_of ((of_char X :: nat) - (if (of_char X :: nat) \<le> 0x5D then 0x40 else 0x60))]"
proof -
  let ?n = "of_char X :: nat"
  have "?n mod 32 = ?n - (if ?n \<le> 0x5D then 0x40 else 0x60)"
    using assms(1) mod32_upper [of ?n] mod32_lower [of ?n] by auto
  then have "?n AND 0x1f = ?n - (if ?n \<le> 0x5D then 0x40 else 0x60)" by (simp add: and_31)
  moreover have "?n \<noteq> 0" "0x20 \<le> ?n" "?n < 0x80" "0x40 \<le> ?n" using assms(1) by auto
  ultimately show ?thesis using assms(2,3,4) by (simp add: keyval_to_string_def)
qed

text \<open>
  Claim C9, as the code has it. The key event of the digit 8 with Control is encoded as
  the backspace byte, but \<open>convert_keys\<close> knows \<open><C-X>\<close> only for \<open>X\<close> from \<open>A\<close> to \<open>]\<close>
  and from \<open>a\<close> to \<open>z\<close>: the label \<open><C-8>\<close> stays the five characters it is.
\<close>

theorem ctrl_8_counterexample:
  "convert_keys header_example ''<C-8>'' = ''<C-8>''
   \<and> keyval_to_string header_example id 0x38 4 = [CHR 0x08]"
  by (simp add: map_eval keyval_to_string_def gdk_keys)

text \<open>
  Claim C9, amended: for every letter \<open>X\<close> (and for the three characters between \<open>Z\<close>
  and \<open>^\<close>) the label \<open><C-X>\<close> is converted to the byte that the key event of \<open>X\<close> with
  Control is encoded as: the code of \<open>X\<close> minus 0x40 for an upper case letter, minus 0x60
  for a lower case letter. The key is any key symbol that GDK translates to the
  character \<open>X\<close>.
\<close>

theorem ctrl_letter_agreement:
  assumes "0x41 \<le> (of_char X :: nat) \<and> (of_char X :: nat) \<le> 0x5D
           \<or> 0x61 \<le> (of_char X :: nat) \<and> (of_char X :: nat) \<le> 0x7A"
    and "to_unicode keyval = of_char X"
    and "keyval \<notin> {GDK_Tab, GDK_KP_Tab, GDK_ISO_Left_Tab, GDK_Linefeed, GDK_Return,
                    GDK_ISO_Enter, GDK_3270_Enter, GDK_Escape, GDK_BackSpace}"
    and "st AND GDK_CONTROL_MASK \<noteq> 0"
  shows "convert_keys h (''<C-'' @ [X] @ ''>'') = keyval_to_string h to_unicode keyval st
         \<and> keyval_to_string h to_unicode keyval st
             = [char_of ((of_char X :: nat)
                         - (if (of_char X :: nat) \<le> 0x5D then 0x40 else 0x60))]"
  using convert_keys_ctrl [OF assms(1), of h]
        keyval_to_string_ctrl [where X = X and to_unicode = to_unicode and keyval = keyval
                                 and st = st and h = h, OF assms]
  by simp

lemma char_of_23: "char_of (23::nat) = CHR 0x17"
  by code_simp

theorem ctrl_letter_agreement_witness:
  "convert_keys header_example ''<C-w>'' = keyval_to_string header_example id 0x77 4
   \<and> keyval_to_string header_example id 0x77 4 = [CHR 0x17]"
proof -
  have 1: "0x41 \<le> (of_char (CHR ''w'') :: nat) \<and> (of_char (CHR ''w'') :: nat) \<le> 0x5D
           \<or> 0x61 \<le> (of_char (CHR ''w'') :: nat) \<and> (of_char (CHR ''w'') :: nat) \<le> 0x7A"
    by simp
  have 2: "id (0x77::nat) = of_char (CHR ''w'')" by simp
  have 3: "(0x77::nat) \<notin> {GDK_Tab, GDK_KP_Tab, GDK_ISO_Left_Tab, GDK_Linefeed, GDK_Return,
                    GDK_ISO_Enter, GDK_3270_Enter, GDK_Escape, GDK_BackSpace}"
    by (simp add: gdk_keys)
  have 4: "(4::nat) AND GDK_CONTROL_MASK \<noteq> 0" by (simp add: gdk_keys)
  from ctrl_letter_agreement [where X = "CHR ''w''" and to_unicode = id and keyval = "0x77"
                                and st = 4 and h = header_example, OF 1 2 3 4]
  show ?thesis using char_of_23
    by (simp del: convert_keys.simps)
qed

section \<open>The match that is selected\<close>

lemma find_match_Cons:
  "find_match t md q (m # l) a b =
     find_match t md q l
       (if mode m = md \<and> \<not> t \<and> inlen m > length q \<and> strncmp0 (in_keys m) q (length q)
        then a + 1 else a)
       (if exact md q m \<and> (case b of None \<Rightarrow> True | Some b' \<Rightarrow> inlen b' < inlen m)
        then Some m else b)"
  by (simp add: exact_def)

lemma find_match_best:
  "find_match t md q ms a b = (a', r) \<Longrightarrow>
   (\<forall>x. b = Some x \<longrightarrow> exact md q x) \<Longrightarrow>
   (r = None \<longleftrightarrow> b = None \<and> (\<forall>m\<in>set ms. \<not> exact md q m))
   \<and> (\<forall>m. r = Some m \<longrightarrow>
          (b = Some m \<or> m \<in> set ms) \<and> exact md q m
          \<and> (\<forall>x. b = Some x \<longrightarrow> inlen x \<le> inlen m)
          \<and> (\<forall>m'\<in>set ms. exact md q m' \<longrightarrow> inlen m' \<le> inlen m))"
proof (induction ms arbitrary: a b)
  case Nil
  then show ?case by auto
next
  case (Cons m ms)
  let ?b = "if exact md q m \<and> (case b of None \<Rightarrow> True | Some b' \<Rightarrow> inlen b' < inlen m)
            then Some m else b"
  let ?a = "if mode m = md \<and> \<not> t \<and> inlen m > length q \<and> strncmp0 (in_keys m) q (length q)
            then a + 1 else a"
  have f: "find_match t md q ms ?a ?b = (a', r)"
    using Cons.prems(1) by (simp only: find_match_Cons)
  have e: "\<forall>x. ?b = Some x \<longrightarrow> exact md q x" using Cons.prems(2) by auto
  note IH = Cons.IH [OF f e]
  show ?case
  proof (cases "exact md q m \<and> (case b of None \<Rightarrow> True | Some b' \<Rightarrow> inlen b' < inlen m)")
    case True
    then have b: "?b = Some m" by (rule if_P)
    from IH show ?thesis unfolding b using True by (auto split: option.splits)
  next
    case False
    then have b: "?b = b" by (rule if_not_P)
    have k: "exact md q m \<longrightarrow> (\<exists>y. b = Some y \<and> inlen m \<le> inlen y)"
      using False by (cases b) auto
    from IH [unfolded b]
    have n: "r = None \<longleftrightarrow> b = None \<and> (\<forall>m\<in>set ms. \<not> exact md q m)"
      and s: "\<And>x. r = Some x \<Longrightarrow>
          (b = Some x \<or> x \<in> set ms) \<and> exact md q x
          \<and> (\<forall>y. b = Some y \<longrightarrow> inlen y \<le> inlen x)
          \<and> (\<forall>m'\<in>set ms. exact md q m' \<longrightarrow> inlen m' \<le> inlen x)"
      by blast+
    have "r = None \<longleftrightarrow> b = None \<and> (\<forall>m\<in>set (m # ms). \<not> exact md q m)"
      using n k by auto
    moreover have "(b = Some x \<or> x \<in> set (m # ms)) \<and> exact md q x
          \<and> (\<forall>y. b = Some y \<longrightarrow> inlen y \<le> inlen x)
          \<and> (\<forall>m'\<in>set (m # ms). exact md q m' \<longrightarrow> inlen m' \<le> inlen x)"
      if "r = Some x" for x
    proof -
      note sx = s [OF that]
      have "inlen m \<le> inlen x" if "exact md q m"
      proof -
        from k that obtain y where "b = Some y" "inlen m \<le> inlen y" by blast
        with sx show ?thesis by fastforce
      qed
      with sx show ?thesis by auto
    qed
    ultimately show ?thesis by blast
  qed
qed

text \<open>
  Claim C4. The loop over the map list selects a rule of the active mode whose input
  the queue starts with, if there is one, and no such rule has a longer input than the
  selected one. The length of the selected input is the same for every order of the
  list (every list with the same rules).
\<close>

theorem longest_match_selected:
  assumes "find_match timeout md q ms 0 None = (amb, sel)"
  shows "(sel = None \<longleftrightarrow> (\<forall>m\<in>set ms. \<not> exact md q m))
         \<and> (\<forall>m. sel = Some m \<longrightarrow>
                m \<in> set ms \<and> exact md q m
                \<and> (\<forall>m'\<in>set ms. exact md q m' \<longrightarrow> inlen m' \<le> inlen m))
         \<and> (\<forall>ms' amb' sel'. set ms' = set ms \<longrightarrow>
                find_match timeout md q ms' 0 None = (amb', sel') \<longrightarrow>
                map_option inlen sel' = map_option inlen sel)"
proof -
  have 1: "(sel = None \<longleftrightarrow> (\<forall>m\<in>set ms. \<not> exact md q m))
         \<and> (\<forall>m. sel = Some m \<longrightarrow>
                m \<in> set ms \<and> exact md q m
                \<and> (\<forall>m'\<in>set ms. exact md q m' \<longrightarrow> inlen m' \<le> inlen m))"
    using find_match_best [OF assms] by simp
  have 2: "map_option inlen sel' = map_option inlen sel"
    if s: "set ms' = set ms" and f: "find_match timeout md q ms' 0 None = (amb', sel')"
    for ms' amb' sel'
  proof -
    have 3: "(sel' = None \<longleftrightarrow> (\<forall>m\<in>set ms. \<not> exact md q m))
         \<and> (\<forall>m. sel' = Some m \<longrightarrow>
                m \<in> set ms \<and> exact md q m
                \<and> (\<forall>m'\<in>set ms. exact md q m' \<longrightarrow> inlen m' \<le> inlen m))"
      using find_match_best [OF f] s by simp
    show ?thesis
    proof (cases sel)
      case None
      with 1 3 show ?thesis by simp
    next
      case (Some m)
      with 1 3 obtain m' where m': "sel' = Some m'" by (cases sel') auto
      from 1 3 Some m' have "inlen m' \<le> inlen m" "inlen m \<le> inlen m'" by auto
      with Some m' show ?thesis by simp
    qed
  qed
  from 1 2 show ?thesis by blast
qed

text \<open>
  The rules \<open>g\<close> to \<open>X\<close> and \<open>gg\<close> to \<open>Y\<close>, entered with \<open>map_insert\<close> in either
  order: the keys \<open>gg\<close> send \<open>Y\<close> and nothing else.
\<close>

lemma longest_match_example:
  "map_handle_keys header_example ''gg'' True
     (map_insert header_example ''gg'' ''Y'' (CHR ''n'')
       (map_insert header_example ''g'' ''X'' (CHR ''n'') (init_state (CHR ''n''))))
     = Some (Inr (MAP_DONE,
         (init_state (CHR ''n''))
           \<lparr>map_list := [rule ''gg'' ''Y'' (CHR ''n''), rule ''g'' ''X'' (CHR ''n'')],
            sent := [Key (CHR ''Y'')]\<rparr>))"
  "map_handle_keys header_example ''gg'' True
     (map_insert header_example ''g'' ''X'' (CHR ''n'')
       (map_insert header_example ''gg'' ''Y'' (CHR ''n'') (init_state (CHR ''n''))))
     = Some (Inr (MAP_DONE,
         (init_state (CHR ''n''))
           \<lparr>map_list := [rule ''g'' ''X'' (CHR ''n''), rule ''gg'' ''Y'' (CHR ''n'')],
            sent := [Key (CHR ''Y'')]\<rparr>))"
  by (simp_all add: map_eval)

text \<open>
  The same rules with the queue \<open>gg\<close> in \<open>find_match\<close>: both rules match, the rule for
  \<open>gg\<close> is selected, in both orders of the list.
\<close>

theorem longest_match_selected_witness:
  "find_match False (CHR ''n'') ''gg''
     [rule ''g'' ''X'' (CHR ''n''), rule ''gg'' ''Y'' (CHR ''n'')] 0 None
     = (0, Some (rule ''gg'' ''Y'' (CHR ''n'')))
   \<and> exact (CHR ''n'') ''gg'' (rule ''g'' ''X'' (CHR ''n''))
   \<and> exact (CHR ''n'') ''gg'' (rule ''gg'' ''Y'' (CHR ''n''))
   \<and> inlen (rule ''g'' ''X'' (CHR ''n'')) \<le> inlen (rule ''gg'' ''Y'' (CHR ''n''))
   \<and> map_option inlen
        (snd (find_match False (CHR ''n'') ''gg''
                [rule ''gg'' ''Y'' (CHR ''n''), rule ''g'' ''X'' (CHR ''n'')] 0 None))
      = Some 2
   \<and> map_handle_keys header_example ''gg'' True
       (map_insert header_example ''g'' ''X'' (CHR ''n'')
         (map_insert header_example ''gg'' ''Y'' (CHR ''n'') (init_state (CHR ''n''))))
     = Some (Inr (MAP_DONE,
         (init_state (CHR ''n''))
           \<lparr>map_list := [rule ''g'' ''X'' (CHR ''n''), rule ''gg'' ''Y'' (CHR ''n'')],
            sent := [Key (CHR ''Y'')]\<rparr>))"
proof -
  let ?g = "rule ''g'' ''X'' (CHR ''n'')" and ?gg = "rule ''gg'' ''Y'' (CHR ''n'')"
  have f: "find_match False (CHR ''n'') ''gg'' [?g, ?gg] 0 None = (0, Some ?gg)"
    by (simp add: rule_def)
  have e: "exact (CHR ''n'') ''gg'' ?g" by (simp add: exact_def rule_def)
  have s: "set [?gg, ?g] = set [?g, ?gg]" by auto
  have p: "find_match False (CHR ''n'') ''gg'' [?gg, ?g] 0 None
             = (fst (find_match False (CHR ''n'') ''gg'' [?gg, ?g] 0 None),
                snd (find_match False (CHR ''n'') ''gg'' [?gg, ?g] 0 None))"
    by simp
  from longest_match_selected [OF f] s p
  have "exact (CHR ''n'') ''gg'' ?gg"
    and "\<forall>m'\<in>set [?g, ?gg]. exact (CHR ''n'') ''gg'' m' \<longrightarrow> inlen m' \<le> inlen ?gg"
    and "map_option inlen (snd (find_match False (CHR ''n'') ''gg'' [?gg, ?g] 0 None))
           = map_option inlen (Some ?gg)"
    by blast+
  with f e longest_match_example(2) show ?thesis by (simp add: rule_def)
qed

section \<open>The replacement of a match\<close>

lemma length_strncpy: "length (strncpy s n) = n"
  by (simp add: strncpy_def)

lemma strncpy_plain: "CHR 0x00 \<notin> set s \<Longrightarrow> strncpy s (length s) = s"
proof -
  assume "CHR 0x00 \<notin> set s"
  then have t: "takeWhile (\<lambda>c. c \<noteq> CHR 0x00) s = s"
    by (intro takeWhile_eq_all_conv [THEN iffD2]) auto
  show ?thesis unfolding strncpy_def t by simp
qed

lemma drain_stop: "resolved st \<le> 0 \<Longrightarrow> drain h st = Inr st"
  by (subst drain.simps) simp

lemma drain_plain:
  "queue st = q \<Longrightarrow> resolved st = int n \<Longrightarrow> n \<le> length q \<Longrightarrow> CSI h \<notin> set (take n q) \<Longrightarrow>
   drain h st = Inr (st\<lparr>resolved := 0, queue := drop n q,
                        nomap := (if n = 0 then nomap st else False),
                        sent := sent st @ map Key (take n q)\<rparr>)"
proof (induction n arbitrary: st q)
  case 0
  then show ?case by (simp add: drain_stop)
next
  case (Suc n)
  from Suc.prems obtain c cs where q: "q = c # cs" by (cases q) auto
  let ?st = "st\<lparr>resolved := resolved st - 1, queue := cs, nomap := False,
                 sent := sent st @ [Key c]\<rparr>"
  have c: "c \<noteq> CSI h" using Suc.prems(4) q by auto
  have "drain h st = drain h ?st"
    using Suc.prems(1,2) q c by (subst drain.simps) simp
  also have "\<dots> = Inr (?st\<lparr>resolved := 0, queue := drop n cs,
                        nomap := (if n = 0 then nomap ?st else False),
                        sent := sent ?st @ map Key (take n cs)\<rparr>)"
    using Suc.prems q by (intro Suc.IH) auto
  finally show ?case using q by simp
qed

lemma length_grow: "length (grow i j n a) = length a"
  by (induction i j n a rule: grow.induct) (subst grow.simps, simp)

lemma length_shrink: "length (shrink i j qlen a) = length a"
  by (induction i j qlen a rule: shrink.induct) (subst shrink.simps, simp)

lemma grow_nth:
  "j \<le> i \<Longrightarrow> n \<le> j \<Longrightarrow> i \<le> length a \<Longrightarrow> p < length a \<Longrightarrow>
   grow i j n a ! p = (if n + (i - j) \<le> p \<and> p < i then a ! (p - (i - j)) else a ! p)"
proof (induction i j n a rule: grow.induct)
  case (1 i j n a)
  show ?case
  proof (cases "j > n")
    case False
    with "1.prems" have "j = n" by simp
    then show ?thesis using "1.prems" by (subst grow.simps) auto
  next
    case True
    let ?a = "a[i - 1 := a ! (j - 1)]"
    let ?c1 = "n + (i - j) \<le> p \<and> p < i - 1" and ?c = "n + (i - j) \<le> p \<and> p < i"
    have g: "grow i j n a = grow (i - 1) (j - 1) n ?a" using True by (subst grow.simps) simp
    have d: "(i - 1) - (j - 1) = i - j" using True "1.prems" by simp
    have "grow (i - 1) (j - 1) n ?a ! p
                = (if n + ((i - 1) - (j - 1)) \<le> p \<and> p < i - 1
                   then ?a ! (p - ((i - 1) - (j - 1))) else ?a ! p)"
      using True "1.prems" by (intro "1.IH" [OF True]) simp_all
    then have IH: "grow (i - 1) (j - 1) n ?a ! p = (if ?c1 then ?a ! (p - (i - j)) else ?a ! p)"
      unfolding d .
    have i1: "i - 1 < length a" using True "1.prems" by simp
    show ?thesis
    proof (cases ?c)
      case c: True
      show ?thesis
      proof (cases "p = i - 1")
        case True
        then have nc1: "\<not> ?c1" by simp
        have "grow i j n a ! p = ?a ! p" unfolding g IH using nc1 by (rule if_not_P)
        also have "\<dots> = a ! (j - 1)" unfolding True using i1 by (rule nth_list_update_eq)
        also have "a ! (j - 1) = a ! (p - (i - j))"
        proof -
          have "j - 1 = p - (i - j)" using True \<open>n < j\<close> "1.prems" by arith
          then show ?thesis by simp
        qed
        also have "a ! (p - (i - j)) = (if ?c then a ! (p - (i - j)) else a ! p)"
          using c by (rule if_P [symmetric])
        finally show ?thesis .
      next
        case False
        with c have c1: ?c1 by arith
        have ne: "i - 1 \<noteq> p - (i - j)" using c1 \<open>n < j\<close> "1.prems" by arith
        have "grow i j n a ! p = ?a ! (p - (i - j))" unfolding g IH using c1 by (rule if_P)
        also have "\<dots> = a ! (p - (i - j))" using ne by (rule nth_list_update_neq)
        also have "\<dots> = (if ?c then a ! (p - (i - j)) else a ! p)"
          using c by (rule if_P [symmetric])
        finally show ?thesis .
      qed
    next
      case nc: False
      then have nc1: "\<not> ?c1" by arith
      have ne: "i - 1 \<noteq> p" using nc \<open>n < j\<close> "1.prems" by arith
      have "grow i j n a ! p = ?a ! p" unfolding g IH using nc1 by (rule if_not_P)
      also have "\<dots> = a ! p" using ne by (rule nth_list_update_neq)
      also have "\<dots> = (if ?c then a ! (p - (i - j)) else a ! p)"
        using nc by (rule if_not_P [symmetric])
      finally show ?thesis .
    qed
  qed
qed

lemma shrink_nth:
  "i \<le> j \<Longrightarrow> p < length a \<Longrightarrow>
   shrink i j qlen a ! p = (if i \<le> p \<and> p < qlen then a ! (p + (j - i)) else a ! p)"
proof (induction i j qlen a rule: shrink.induct)
  case (1 i j qlen a)
  show ?case
  proof (cases "i < qlen")
    case False
    then show ?thesis by (subst shrink.simps) simp
  next
    case True
    let ?a = "a[i := a ! j]"
    let ?c1 = "i + 1 \<le> p \<and> p < qlen" and ?c = "i \<le> p \<and> p < qlen"
    have g: "shrink i j qlen a = shrink (i + 1) (j + 1) qlen ?a"
      using True by (subst shrink.simps) simp
    have d: "(j + 1) - (i + 1) = j - i" by simp
    have "shrink (i + 1) (j + 1) qlen ?a ! p
            = (if ?c1 then ?a ! (p + ((j + 1) - (i + 1))) else ?a ! p)"
      using "1.prems" by (intro "1.IH" [OF True]) simp_all
    then have IH: "shrink (i + 1) (j + 1) qlen ?a ! p
                     = (if ?c1 then ?a ! (p + (j - i)) else ?a ! p)"
      unfolding d .
    show ?thesis
    proof (cases ?c)
      case c: True
      show ?thesis
      proof (cases "p = i")
        case True
        then have nc1: "\<not> ?c1" by simp
        have il: "i < length a" using True "1.prems" by simp
        have "shrink i j qlen a ! p = ?a ! p" unfolding g IH using nc1 by (rule if_not_P)
        also have "\<dots> = a ! j" unfolding True using il by (rule nth_list_update_eq)
        also have "a ! j = a ! (p + (j - i))" using True "1.prems" by simp
        also have "a ! (p + (j - i)) = (if ?c then a ! (p + (j - i)) else a ! p)"
          using c by (rule if_P [symmetric])
        finally show ?thesis .
      next
        case False
        with c have c1: ?c1 by arith
        have ne: "i \<noteq> p + (j - i)" using c1 by arith
        have "shrink i j qlen a ! p = ?a ! (p + (j - i))"
          unfolding g IH using c1 by (rule if_P)
        also have "\<dots> = a ! (p + (j - i))" using ne by (rule nth_list_update_neq)
        also have "\<dots> = (if ?c then a ! (p + (j - i)) else a ! p)"
          using c by (rule if_P [symmetric])
        finally show ?thesis .
      qed
    next
      case nc: False
      then have nc1: "\<not> ?c1" by arith
      have ne: "i \<noteq> p" using nc True by arith
      have "shrink i j qlen a ! p = ?a ! p" unfolding g IH using nc1 by (rule if_not_P)
      also have "\<dots> = a ! p" using ne by (rule nth_list_update_neq)
      also have "\<dots> = (if ?c then a ! (p + (j - i)) else a ! p)"
        using nc by (rule if_not_P [symmetric])
      finally show ?thesis .
    qed
  qed
qed

lemma shifted_nth:
  assumes "length a = N" "qlen \<le> N" "inlen m \<le> qlen" "qlen + mappedlen m - inlen m \<le> N"
    and "mappedlen m \<le> p" "p < qlen + mappedlen m - inlen m"
  shows "(if inlen m < mappedlen m
          then grow (qlen + mappedlen m - inlen m) qlen (inlen m) a
          else if inlen m > mappedlen m
          then shrink (mappedlen m) (inlen m) qlen a
          else a) ! p = a ! (inlen m + (p - mappedlen m))"
proof -
  have pl: "p < length a" using assms by simp
  consider "inlen m < mappedlen m" | "inlen m > mappedlen m" | "inlen m = mappedlen m"
    by linarith
  then show ?thesis
  proof cases
    case 1
    let ?i = "qlen + mappedlen m - inlen m"
    have "grow ?i qlen (inlen m) a ! p
            = (if inlen m + (?i - qlen) \<le> p \<and> p < ?i then a ! (p - (?i - qlen)) else a ! p)"
      using assms 1 pl by (intro grow_nth) simp_all
    moreover have "inlen m + (?i - qlen) \<le> p \<and> p < ?i" using assms 1 by arith
    moreover have "p - (?i - qlen) = inlen m + (p - mappedlen m)" using assms 1 by arith
    ultimately show ?thesis using 1 by simp
  next
    case 2
    have "shrink (mappedlen m) (inlen m) qlen a ! p
            = (if mappedlen m \<le> p \<and> p < qlen then a ! (p + (inlen m - mappedlen m)) else a ! p)"
      using 2 pl by (intro shrink_nth) simp_all
    moreover have "mappedlen m \<le> p \<and> p < qlen" using assms 2 by arith
    moreover have "p + (inlen m - mappedlen m) = inlen m + (p - mappedlen m)"
      using assms 2 by arith
    ultimately show ?thesis using 2 by simp
  next
    case 3
    then show ?thesis using assms by simp
  qed
qed

lemma splice_array_take:
  assumes "length a = N" "qlen \<le> N" "inlen m \<le> qlen" "qlen + mappedlen m - inlen m \<le> N"
  shows "take (snd (splice_array m a qlen)) (fst (splice_array m a qlen))
           = strncpy (mapped m) (mappedlen m) @ drop (inlen m) (take qlen a)"
    and "snd (splice_array m a qlen) = qlen + mappedlen m - inlen m"
    and "length (fst (splice_array m a qlen)) = N"
proof -
  let ?a1 = "if inlen m < mappedlen m
             then grow (qlen + mappedlen m - inlen m) qlen (inlen m) a
             else if inlen m > mappedlen m
             then shrink (mappedlen m) (inlen m) qlen a
             else a"
  let ?q = "qlen + mappedlen m - inlen m"
  let ?a2 = "strncpy (mapped m) (mappedlen m) @ drop (mappedlen m) ?a1"
  have sa: "splice_array m a qlen = (?a2, ?q)" by (simp add: splice_array_def Let_def)
  have l1: "length ?a1 = N" using assms(1) by (simp add: length_grow length_shrink)
  have ml: "mappedlen m \<le> N" using assms by arith
  have l2: "length ?a2 = N" using l1 ml by (simp add: length_strncpy)
  show "snd (splice_array m a qlen) = ?q" by (simp add: sa)
  show "length (fst (splice_array m a qlen)) = N" using l2 by (simp add: sa)
  have "take ?q ?a2 = strncpy (mapped m) (mappedlen m) @ drop (inlen m) (take qlen a)"
  proof (rule nth_equalityI)
    show "length (take ?q ?a2)
            = length (strncpy (mapped m) (mappedlen m) @ drop (inlen m) (take qlen a))"
      using assms l2 by (simp add: length_strncpy)
  next
    fix p assume "p < length (take ?q ?a2)"
    then have p: "p < ?q" by simp
    show "take ?q ?a2 ! p = (strncpy (mapped m) (mappedlen m) @ drop (inlen m) (take qlen a)) ! p"
    proof (cases "p < mappedlen m")
      case True
      then show ?thesis using p by (simp add: nth_append length_strncpy)
    next
      case False
      then have mp: "mappedlen m \<le> p" by simp
      have k: "inlen m + (p - mappedlen m) < qlen" using assms mp p by arith
      have "drop (inlen m) (take qlen a) ! (p - mappedlen m)
              = take qlen a ! (inlen m + (p - mappedlen m))"
        using assms by (intro nth_drop) simp
      also have "\<dots> = a ! (inlen m + (p - mappedlen m))" using k by (rule nth_take)
      finally have r: "drop (inlen m) (take qlen a) ! (p - mappedlen m)
                         = a ! (inlen m + (p - mappedlen m))" .
      have "drop (mappedlen m) ?a1 ! (p - mappedlen m) = ?a1 ! (mappedlen m + (p - mappedlen m))"
        using ml l1 by (intro nth_drop) simp
      also have "mappedlen m + (p - mappedlen m) = p" using mp by simp
      finally have l: "drop (mappedlen m) ?a1 ! (p - mappedlen m) = ?a1 ! p" .
      have "take ?q ?a2 ! p = ?a2 ! p" using p by (rule nth_take)
      also have "\<dots> = drop (mappedlen m) ?a1 ! (p - mappedlen m)"
        using False by (simp add: nth_append length_strncpy del: if_split cong: if_cong)
      also note l
      also have "?a1 ! p = a ! (inlen m + (p - mappedlen m))"
        using assms mp p by (rule shifted_nth)
      also note r [symmetric]
      also have "drop (inlen m) (take qlen a) ! (p - mappedlen m)
                   = (strncpy (mapped m) (mappedlen m) @ drop (inlen m) (take qlen a)) ! p"
        using False by (simp add: nth_append length_strncpy)
      finally show ?thesis .
    qed
  qed
  then show "take (snd (splice_array m a qlen)) (fst (splice_array m a qlen))
           = strncpy (mapped m) (mappedlen m) @ drop (inlen m) (take qlen a)"
    by (simp add: sa)
qed

text \<open>
  The replacement as \<open>splice\<close> has it is the replacement that the loops and \<open>strncpy\<close>
  make on the array.
\<close>

lemma splice_on_array:
  assumes "splice h m st = Inr st'" and "inlen m \<le> length (queue st)"
    and "length a = MAP_QUEUE_SIZE h" and "qlen \<le> MAP_QUEUE_SIZE h"
    and "queue st = take qlen a"
  shows "queue st' = take (snd (splice_array m a qlen)) (fst (splice_array m a qlen))"
    and "length (queue st') = snd (splice_array m a qlen)"
    and "length (fst (splice_array m a qlen)) = MAP_QUEUE_SIZE h"
proof -
  have q: "length (queue st) = qlen" using assms(3,4,5) by simp
  have n: "qlen + mappedlen m - inlen m \<le> MAP_QUEUE_SIZE h"
    using assms(1) q by (auto simp: splice_def split: if_splits)
  have i: "inlen m \<le> qlen" using assms(2) q by simp
  have st': "queue st' = strncpy (mapped m) (mappedlen m) @ drop (inlen m) (queue st)"
    using assms(1) by (auto simp: splice_def split: if_splits)
  note t = splice_array_take [OF assms(3,4) i n]
  show "queue st' = take (snd (splice_array m a qlen)) (fst (splice_array m a qlen))"
    using t(1) st' assms(5) by simp
  show "length (queue st') = snd (splice_array m a qlen)"
    using t(2) st' q i by (simp add: length_strncpy)
  show "length (fst (splice_array m a qlen)) = MAP_QUEUE_SIZE h" by (rule t(3))
qed




section \<open>The length of the queue\<close>

lemma drain_bounds:
  "drain h st = Inr st1 \<Longrightarrow>
   length (queue st1) \<le> length (queue st) \<and> resolved st1 \<le> 0
   \<and> map_list st1 = map_list st \<and> mode_id st1 = mode_id st"
proof (induction h st rule: drain.induct)
  case (1 h st)
  show ?case
  proof (cases "resolved st > 0")
    case False
    with "1.prems" show ?thesis by (subst (asm) drain.simps) auto
  next
    case True
    with "1.prems" obtain c cs where q: "queue st = c # cs"
      by (subst (asm) drain.simps) (auto split: list.splits)
    show ?thesis
    proof (cases "c = CSI h \<and> length (queue st) \<ge> 3")
      case csi: True
      let ?st = "st\<lparr>resolved := resolved st - 3, queue := drop 3 (queue st), nomap := False,
                     sent := sent st @ [Termcap (queue st ! 1) (queue st ! 2)]\<rparr>"
      have "drain h ?st = Inr st1" using "1.prems" True q csi by (subst (asm) drain.simps) simp
      from "1.IH"(1) [OF True q csi this] show ?thesis by auto
    next
      case plain: False
      let ?st = "st\<lparr>resolved := resolved st - 1, queue := cs, nomap := False,
                     sent := sent st @ [Key c]\<rparr>"
      have "drain h ?st = Inr st1" using "1.prems" True q plain by (subst (asm) drain.simps) auto
      from "1.IH"(2) [OF True q plain this] q show ?thesis by auto
    qed
  qed
qed

lemma drain_no_underflow:
  "resolved st \<le> int (length (queue st)) \<Longrightarrow> drain h st \<noteq> Inl e"
proof (induction h st rule: drain.induct)
  case (1 h st)
  show ?case
  proof (cases "resolved st > 0")
    case False
    then show ?thesis by (subst drain.simps) auto
  next
    case True
    with "1.prems" obtain c cs where q: "queue st = c # cs" by (cases "queue st") auto
    show ?thesis
    proof (cases "c = CSI h \<and> length (queue st) \<ge> 3")
      case csi: True
      let ?st = "st\<lparr>resolved := resolved st - 3, queue := drop 3 (queue st), nomap := False,
                     sent := sent st @ [Termcap (queue st ! 1) (queue st ! 2)]\<rparr>"
      have "resolved ?st \<le> int (length (queue ?st))" using "1.prems" csi by simp
      from "1.IH"(1) [OF True q csi this] show ?thesis using True q csi
        by (subst drain.simps) simp
    next
      case plain: False
      let ?st = "st\<lparr>resolved := resolved st - 1, queue := cs, nomap := False,
                     sent := sent st @ [Key c]\<rparr>"
      have "resolved ?st \<le> int (length (queue ?st))" using "1.prems" q by simp
      from "1.IH"(2) [OF True q plain this] show ?thesis using True q plain
        by (subst drain.simps) auto
    qed
  qed
qed


lemma splice_bounds:
  "splice h m st = Inr st' \<Longrightarrow> inlen m \<le> length (queue st) \<Longrightarrow>
   length (queue st') \<le> MAP_QUEUE_SIZE h \<and> resolved st' \<le> int (length (queue st'))"
  by (auto simp: splice_def strncpy_def split: if_splits)

lemma splice_error:
  "splice h m st = Inl e \<Longrightarrow> \<exists>n. e = QueueOverflow n \<or> e = QueueOverread n"
  by (auto simp: splice_def split: if_splits)

lemma find_match_inlen:
  "find_match t md q ms a b = (a', Some m) \<Longrightarrow> (\<forall>x. b = Some x \<longrightarrow> inlen x \<le> length q) \<Longrightarrow>
   inlen m \<le> length q"
  by (induction ms arbitrary: a b) (auto split: if_splits)

text \<open>
  A pass of \<open>map_handle_keys\<close> that returns either keeps the queue within the array (and
  leaves no key resolved, so that the next pass starts as this one did), or it has
  left the array in the replacement of a match. It never takes a key from an empty
  queue.
\<close>

lemma map_loop_bounds:
  assumes "map_loop h um t match st = Some y"
  shows "within h st \<longrightarrow> kept h y"
proof (rule map_loop.raw_induct
         [where P = "\<lambda>h um t match st y. within h st \<longrightarrow> kept h y", OF _ assms],
       goal_cases)
  case (1 f h um t match st y)
  note IH = 1(1) and eq = 1(2)
  show ?case
  proof (intro impI)
    assume w: "within h st"
    then have cap: "length (queue st) \<le> MAP_QUEUE_SIZE h"
      and res: "resolved st \<le> int (length (queue st))" by (simp_all add: within_def)
    from drain_no_underflow [OF res] obtain st1 where d: "drain h st = Inr st1"
      by (cases "drain h st") auto
    note b = drain_bounds [OF d]
    show "kept h y"
    proof (cases "queue st1 = []")
      case True
      with eq d show ?thesis by (auto simp: kept_def)
    next
      case False
      obtain amb sel where f:
        "(if um \<and> \<not> nomap st1
          then find_match t (mode_id st1) (queue st1) (map_list st1) 0 None
          else (0, None)) = (amb, sel)"
        by (cases "if um \<and> \<not> nomap st1
          then find_match t (mode_id st1) (queue st1) (map_list st1) 0 None
          else (0, None)")
      show ?thesis
      proof (cases "amb \<noteq> 0")
        case True
        with eq d False f b cap show ?thesis by (auto simp: kept_def)
      next
        case amb0: False
        show ?thesis
        proof (cases sel)
          case None
          with eq d False f amb0
          have "f h um t None (st1\<lparr>resolved := 1\<rparr>) = Some y" by simp
          moreover have "within h (st1\<lparr>resolved := 1\<rparr>)"
            using False b cap by (cases "queue st1") (auto simp: within_def)
          ultimately show ?thesis using IH by blast
        next
          case (Some m)
          have il: "inlen m \<le> length (queue st1)"
            using f Some
              find_match_inlen [of t "mode_id st1" "queue st1" "map_list st1" 0 None amb m]
            by (auto split: if_splits)
          show ?thesis
          proof (cases "splice h m st1")
            case (Inl e)
            with eq d False f amb0 Some have "y = Inl e" by simp
            with splice_error [OF Inl] show ?thesis by (simp add: kept_def)
          next
            case (Inr st2)
            with eq d False f amb0 Some
            have "f h um t (Some m) st2 = Some y" by simp
            moreover have "within h st2" using splice_bounds [OF Inr il] by (simp add: within_def)
            ultimately show ?thesis using IH by blast
          qed
        qed
      qed
    qed
  qed
qed

lemma map_handle_keys_bounds:
  assumes "map_handle_keys h ks um st = Some y"
    and "length (queue st) \<le> MAP_QUEUE_SIZE h" and "resolved st \<le> 0"
  shows "kept h y"
proof -
  let ?st = "st\<lparr>queue := queue st @ take (MAP_QUEUE_SIZE h - length (queue st)) ks\<rparr>"
  have "map_loop h um (ks = []) None ?st = Some y"
    using assms(1) by (simp add: map_handle_keys_def)
  moreover have "within h ?st" using assms(2,3) by (simp add: within_def)
  ultimately show ?thesis using map_loop_bounds by blast
qed

text \<open>
  Claim C1. The loop that appends the keys stops at \<open>MAP_QUEUE_SIZE\<close>, but the
  replacement of a match does not look at the size of the array. With a queue of
  \<open>n + 1\<close> characters and a rule that maps \<open>a\<close> to \<open>n + 2\<close> characters, the key \<open>a\<close>
  makes \<open>strncpy\<close> write \<open>n + 2\<close> characters into the array and sets \<open>qlen\<close> to \<open>n + 2\<close>.
\<close>

theorem queue_overflow_evaluation:
  "map_handle_keys (h\<lparr>MAP_QUEUE_SIZE := Suc n\<rparr>) ''a'' True
     ((init_state md)\<lparr>map_list :=
        [\<lparr>in_keys = ''a'', inlen = 1, mapped = replicate (Suc (Suc n)) (CHR ''b''),
           mappedlen = Suc (Suc n), mode = md\<rparr>]\<rparr>)
     = Some (Inl (QueueOverflow (Suc (Suc n))))"
  by (simp add: map_handle_keys_def init_state_def drain_stop splice_def
        map_loop.simps [of _ _ _ None])

section \<open>An ambiguous match and the timeout\<close>

lemma find_match_timeout:
  "find_match True md q ms a b = (a', r) \<Longrightarrow> a' = a"
  by (induction ms arbitrary: a b) (auto split: if_splits)

lemma find_match_none:
  assumes "\<forall>m\<in>set ms. \<not> exact md q m"
  shows "find_match True md q ms 0 None = (0, None)"
proof -
  obtain a r where f: "find_match True md q ms 0 None = (a, r)"
    by (cases "find_match True md q ms 0 None")
  from find_match_timeout [OF f] have "a = 0" .
  moreover from find_match_best [OF f] assms have "r = None" by simp
  ultimately show ?thesis using f by simp
qed

text \<open>
  In a timeout pass, a queue without CSI of which no rule matches a rest is sent as it
  is, key by key, and the function returns.
\<close>

lemma forward_plain:
  assumes "1 \<le> r" "resolved st = int r" "r \<le> length (queue st)"
    and "CSI h \<notin> set (queue st)"
    and "\<forall>k. r \<le> k \<and> k < length (queue st) \<longrightarrow>
           (\<forall>m\<in>set (map_list st). \<not> exact (mode_id st) (drop k (queue st)) m)"
  shows "\<exists>res. map_loop h um True match st
           = Some (Inr (res, st\<lparr>resolved := 0, queue := [], nomap := False,
                                sent := sent st @ map Key (queue st)\<rparr>))"
  using assms
proof (induction "length (queue st)" arbitrary: st r match rule: less_induct)
  case less
  let ?q = "queue st"
  let ?st1 = "st\<lparr>resolved := 0, queue := drop r ?q, nomap := False,
                  sent := sent st @ map Key (take r ?q)\<rparr>"
  have "CSI h \<notin> set (take r ?q)" using less.prems(4) by (auto dest: in_set_takeD)
  from drain_plain [OF refl less.prems(2,3) this] less.prems(1)
  have d: "drain h st = Inr ?st1" by simp
  show ?case
  proof (cases "drop r ?q = []")
    case True
    then have "take r ?q = ?q" using less.prems(3) by simp
    with True d show ?thesis by (subst map_loop.simps) simp
  next
    case False
    then have rl: "r < length ?q" by simp
    have "\<forall>m\<in>set (map_list st). \<not> exact (mode_id st) (drop r ?q) m"
      using less.prems(5) rl by simp
    then have f: "find_match True (mode_id st) (drop r ?q) (map_list st) 0 None = (0, None)"
      by (rule find_match_none)
    let ?st2 = "?st1\<lparr>resolved := 1\<rparr>"
    have step: "map_loop h um True match st = map_loop h um True None ?st2"
      using d False f by (subst map_loop.simps) simp
    have "\<exists>res. map_loop h um True None ?st2
           = Some (Inr (res, ?st2\<lparr>resolved := 0, queue := [], nomap := False,
                                  sent := sent ?st2 @ map Key (queue ?st2)\<rparr>))"
    proof (rule less.hyps [where r = 1])
      show "length (queue ?st2) < length ?q" using less.prems(1) rl by simp
      show "1 \<le> (1::nat)" by simp
      show "resolved ?st2 = int 1" by simp
      show "1 \<le> length (queue ?st2)" using rl by simp
      show "CSI h \<notin> set (queue ?st2)" using less.prems(4) by (auto dest: in_set_dropD)
      show "\<forall>k. 1 \<le> k \<and> k < length (queue ?st2) \<longrightarrow>
           (\<forall>m\<in>set (map_list ?st2). \<not> exact (mode_id ?st2) (drop k (queue ?st2)) m)"
        using less.prems(5) by (auto simp: add.commute)
    qed
    moreover have "map Key (take r ?q) @ map Key (drop r ?q) = map Key ?q"
      by (simp flip: map_append)
    ultimately show ?thesis using step by simp
  qed
qed

lemma not_exact_ab:
  assumes "CHR ''a'' \<notin> set q" "q \<noteq> []"
  shows "\<not> exact md q (rule ''ab'' o1 md')" "\<not> exact md q (rule ''abc'' o2 md')"
  using assms by (cases q; simp add: exact_def rule_def)+

lemma ambiguous_a:
  assumes "1 \<le> MAP_QUEUE_SIZE h"
    and "map_list st = [rule ''ab'' o1 (mode_id st), rule ''abc'' o2 (mode_id st)]
         \<or> map_list st = [rule ''abc'' o2 (mode_id st), rule ''ab'' o1 (mode_id st)]"
    and "queue st = []" "resolved st \<le> 0" "\<not> nomap st"
  shows "map_handle_keys h ''a'' True st = Some (Inr (MAP_AMBIGUOUS, st\<lparr>queue := ''a''\<rparr>))"
proof -
  have t: "take (MAP_QUEUE_SIZE h) ''a'' = ''a''" using assms(1) by simp
  have d: "drain h (st\<lparr>queue := ''a''\<rparr>) = Inr (st\<lparr>queue := ''a''\<rparr>)"
    using assms(4) by (simp add: drain_stop)
  show ?thesis using assms(2,3,5)
    by (subst map_handle_keys_def, subst map_loop.simps) (auto simp: t d rule_def)
qed

lemma ambiguous_ab:
  assumes "2 \<le> MAP_QUEUE_SIZE h"
    and "map_list st = [rule ''ab'' o1 (mode_id st), rule ''abc'' o2 (mode_id st)]
         \<or> map_list st = [rule ''abc'' o2 (mode_id st), rule ''ab'' o1 (mode_id st)]"
    and "queue st = []" "resolved st \<le> 0" "\<not> nomap st"
  shows "map_handle_keys h ''b'' True (st\<lparr>queue := ''a''\<rparr>)
           = Some (Inr (MAP_AMBIGUOUS, st\<lparr>queue := ''ab''\<rparr>))"
proof -
  have t: "take (MAP_QUEUE_SIZE h - Suc 0) ''b'' = ''b''"
    using assms(1) by (simp add: take_Cons')
  have d: "drain h (st\<lparr>queue := ''ab''\<rparr>) = Inr (st\<lparr>queue := ''ab''\<rparr>)"
    using assms(4) by (simp add: drain_stop)
  show ?thesis using assms(2,3,5)
    by (subst map_handle_keys_def, subst map_loop.simps) (auto simp: t d rule_def)
qed

lemma timeout_ab:
  assumes "4 \<le> MAP_QUEUE_SIZE h" and "length o1 \<le> MAP_QUEUE_SIZE h"
    and "map_list st = [rule ''ab'' o1 (mode_id st), rule ''abc'' o2 (mode_id st)]
         \<or> map_list st = [rule ''abc'' o2 (mode_id st), rule ''ab'' o1 (mode_id st)]"
    and "queue st = []" "resolved st \<le> 0" "\<not> nomap st"
    and "CSI h \<notin> set o1" "CHR 0x00 \<notin> set o1" "CHR ''a'' \<notin> set o1"
  shows "\<exists>res. do_timeout h (st\<lparr>queue := ''ab''\<rparr>)
           = Some (Inr (res, st\<lparr>queue := [], resolved := 0, sent := sent st @ map Key o1\<rparr>))"
proof -
  let ?s = "st\<lparr>queue := ''ab''\<rparr>"
  let ?m = "rule ''ab'' o1 (mode_id st)"
  let ?s2 = "st\<lparr>queue := o1, resolved := int (min 2 (length o1))\<rparr>"
  have d: "drain h ?s = Inr ?s" using assms(5) by (simp add: drain_stop)
  have f: "find_match True (mode_id st) ''ab'' (map_list st) 0 None = (0, Some ?m)"
    using assms(3) by (auto simp: rule_def)
  have "\<not> MAP_QUEUE_SIZE h < Suc (Suc (Suc (Suc 0) - length o1))" using assms(1) by arith
  then have sp: "splice h ?m ?s = Inr ?s2"
    using assms(2,8) by (simp add: splice_def rule_def strncpy_plain min_def)
  have step: "do_timeout h ?s = map_loop h True True (Some ?m) ?s2"
    unfolding do_timeout_def map_handle_keys_def
    using d f sp assms(6) by (subst map_loop.simps) simp
  show ?thesis
  proof (cases "o1 = []")
    case True
    then have "drain h ?s2 = Inr ?s2" by (simp add: drain_stop)
    with True
    have "map_loop h True True (Some ?m) ?s2 = Some (Inr (MAP_DONE, ?s2\<lparr>resolved := 0\<rparr>))"
      by (subst map_loop.simps) simp
    with step True show ?thesis by simp
  next
    case False
    have "\<exists>res. map_loop h True True (Some ?m) ?s2
           = Some (Inr (res, ?s2\<lparr>resolved := 0, queue := [], nomap := False,
                                 sent := sent ?s2 @ map Key (queue ?s2)\<rparr>))"
    proof (rule forward_plain [where r = "min 2 (length o1)"])
      show "1 \<le> min 2 (length o1)" using False by (cases o1) auto
      show "resolved ?s2 = int (min 2 (length o1))" by simp
      show "min 2 (length o1) \<le> length (queue ?s2)" by simp
      show "CSI h \<notin> set (queue ?s2)" using assms(7) by simp
      show "\<forall>k. min 2 (length o1) \<le> k \<and> k < length (queue ?s2) \<longrightarrow>
              (\<forall>m\<in>set (map_list ?s2). \<not> exact (mode_id ?s2) (drop k (queue ?s2)) m)"
      proof (intro allI impI ballI)
        fix k m
        assume k: "min 2 (length o1) \<le> k \<and> k < length (queue ?s2)"
          and m: "m \<in> set (map_list ?s2)"
        have "CHR ''a'' \<notin> set (drop k o1)" using assms(9) by (auto dest: in_set_dropD)
        moreover have "drop k o1 \<noteq> []" using k by simp
        ultimately have "\<not> exact (mode_id st) (drop k o1) (rule ''ab'' o1 (mode_id st))"
          "\<not> exact (mode_id st) (drop k o1) (rule ''abc'' o2 (mode_id st))"
          by (rule not_exact_ab)+
        with m assms(3) show "\<not> exact (mode_id ?s2) (drop k (queue ?s2)) m" by auto
      qed
    qed
    moreover
    have "st\<lparr>resolved := 0, queue := [], nomap := False, sent := sent st @ map Key o1\<rparr>
            = st\<lparr>queue := [], resolved := 0, sent := sent st @ map Key o1\<rparr>"
      using assms(6) by (cases st) simp
    ultimately show ?thesis using step by simp
  qed
qed

text \<open>
  Claim C3. The map list holds a rule for \<open>ab\<close> and a rule for \<open>abc\<close> in the active
  mode, in either order, the queue is empty, and mapping is not switched off. The key
  \<open>a\<close> and then the key \<open>b\<close> each return \<open>MAP_AMBIGUOUS\<close>: the key stays in the queue,
  nothing else in the state changes, so nothing is sent. The timeout pass that follows
  then returns with an empty queue, and what has been sent is the output of the rule
  for \<open>ab\<close>, not \<open>a\<close> and \<open>b\<close>. The output is any string that fits into the queue and
  has no NUL, no CSI and no \<open>a\<close> in it (with an \<open>a\<close> the rest of the output could be
  mapped again); the queue has room for four characters at least.
\<close>

theorem ambiguity_then_timeout:
  assumes "4 \<le> MAP_QUEUE_SIZE h" and "length o1 \<le> MAP_QUEUE_SIZE h"
    and "map_list st = [rule ''ab'' o1 (mode_id st), rule ''abc'' o2 (mode_id st)]
         \<or> map_list st = [rule ''abc'' o2 (mode_id st), rule ''ab'' o1 (mode_id st)]"
    and "queue st = []" "resolved st \<le> 0" "\<not> nomap st"
    and "CSI h \<notin> set o1" "CHR 0x00 \<notin> set o1" "CHR ''a'' \<notin> set o1"
  shows "map_handle_keys h ''a'' True st = Some (Inr (MAP_AMBIGUOUS, st\<lparr>queue := ''a''\<rparr>))
       \<and> map_handle_keys h ''b'' True (st\<lparr>queue := ''a''\<rparr>)
           = Some (Inr (MAP_AMBIGUOUS, st\<lparr>queue := ''ab''\<rparr>))
       \<and> (\<exists>res. do_timeout h (st\<lparr>queue := ''ab''\<rparr>)
             = Some (Inr (res, st\<lparr>queue := [], resolved := 0,
                                  sent := sent st @ map Key o1\<rparr>)))"
proof -
  have "1 \<le> MAP_QUEUE_SIZE h" "2 \<le> MAP_QUEUE_SIZE h" using assms(1) by simp_all
  from ambiguous_a [OF this(1) assms(3-6)] ambiguous_ab [OF this(2) assms(3-6)]
       timeout_ab [OF assms]
  show ?thesis by blast
qed

text \<open>
  The rules \<open>ab\<close> to \<open>X\<close> and \<open>abc\<close> to \<open>Y\<close>, entered with \<open>map_insert\<close> in normal mode:
  \<open>a\<close>, \<open>b\<close>, timeout send \<open>X\<close>.
\<close>

theorem ambiguity_then_timeout_witness:
  "map_handle_keys header_example ''a'' True
     (map_insert header_example ''abc'' ''Y'' (CHR ''n'')
       (map_insert header_example ''ab'' ''X'' (CHR ''n'') (init_state (CHR ''n''))))
     = Some (Inr (MAP_AMBIGUOUS,
         (init_state (CHR ''n''))
           \<lparr>map_list := [rule ''abc'' ''Y'' (CHR ''n''), rule ''ab'' ''X'' (CHR ''n'')],
            queue := ''a''\<rparr>))
   \<and> map_handle_keys header_example ''b'' True
       ((init_state (CHR ''n''))
          \<lparr>map_list := [rule ''abc'' ''Y'' (CHR ''n''), rule ''ab'' ''X'' (CHR ''n'')],
           queue := ''a''\<rparr>)
     = Some (Inr (MAP_AMBIGUOUS,
         (init_state (CHR ''n''))
           \<lparr>map_list := [rule ''abc'' ''Y'' (CHR ''n''), rule ''ab'' ''X'' (CHR ''n'')],
            queue := ''ab''\<rparr>))
   \<and> do_timeout header_example
       ((init_state (CHR ''n''))
          \<lparr>map_list := [rule ''abc'' ''Y'' (CHR ''n''), rule ''ab'' ''X'' (CHR ''n'')],
           queue := ''ab''\<rparr>)
     = Some (Inr (MAP_DONE,
         (init_state (CHR ''n''))
           \<lparr>map_list := [rule ''abc'' ''Y'' (CHR ''n''), rule ''ab'' ''X'' (CHR ''n'')],
            sent := [Key (CHR ''X'')]\<rparr>))"
proof -
  let ?st = "(init_state (CHR ''n''))
               \<lparr>map_list := [rule ''abc'' ''Y'' (CHR ''n''), rule ''ab'' ''X'' (CHR ''n'')]\<rparr>"
  have i: "map_insert header_example ''abc'' ''Y'' (CHR ''n'')
       (map_insert header_example ''ab'' ''X'' (CHR ''n'') (init_state (CHR ''n''))) = ?st"
    by (simp add: map_insert_def init_state_def rule_def)
  have t: "do_timeout header_example (?st\<lparr>queue := ''ab''\<rparr>)
             = Some (Inr (MAP_DONE, ?st\<lparr>sent := [Key (CHR ''X'')]\<rparr>))"
    by (simp add: map_eval)
  have a: "4 \<le> MAP_QUEUE_SIZE header_example" "length ''X'' \<le> MAP_QUEUE_SIZE header_example"
    "map_list ?st = [rule ''ab'' ''X'' (mode_id ?st), rule ''abc'' ''Y'' (mode_id ?st)]
         \<or> map_list ?st = [rule ''abc'' ''Y'' (mode_id ?st), rule ''ab'' ''X'' (mode_id ?st)]"
    "queue ?st = []" "resolved ?st \<le> 0" "\<not> nomap ?st"
    "CSI header_example \<notin> set ''X''" "CHR 0x00 \<notin> set ''X''" "CHR ''a'' \<notin> set ''X''"
    by (simp_all add: header_example_def init_state_def)
  from ambiguity_then_timeout [OF a] i t show ?thesis by simp
qed

end
